theory Spec2Isabelle
  imports Main "HOL-Library.Monad_Syntax"
begin

section \<open>Words and the sentence encoding (base/word.py, PatternMatcher.matches)\<close>

text \<open>
  \<^verbatim>\<open>ATTRIBUTE_SEPARATOR = "\35"\<close> and \<^verbatim>\<open>WORD_SEPARATOR = "\34"\<close> (octal escapes) in
  base/word.py. A character of the model is one code point of a Python string.
\<close>

definition ATTRIBUTE_SEPARATOR :: char where
  "ATTRIBUTE_SEPARATOR = CHR 0x1D"

definition WORD_SEPARATOR :: char where
  "WORD_SEPARATOR = CHR 0x1C"

text \<open>
  A token. The matcher reads exactly the four attributes of \<^verbatim>\<open>WORD_ATTRIBUTES\<close>
  (\<^verbatim>\<open>["surface", "lemma", "pos", "syn"]\<close>) through \<^verbatim>\<open>getattr\<close>; each is a string.
\<close>

record word =
  w_surface :: string
  w_lemma :: string
  w_pos :: string
  w_syn :: string

text \<open>Python's \<^verbatim>\<open>str\<close> of a non-negative integer: its decimal digits.\<close>

definition digit_char :: "nat \<Rightarrow> char" where
  "digit_char d = char_of (48 + d)"

function str_nat :: "nat \<Rightarrow> string" where
  "str_nat n = (if n < 10 then [digit_char n] else str_nat (n div 10) @ [digit_char (n mod 10)])"
  by pat_completeness auto
termination
  by (relation "measure id") auto

declare str_nat.simps [simp del]

text \<open>\<^verbatim>\<open>sep.join(xs)\<close> for a one-character separator.\<close>

fun join :: "char \<Rightarrow> string list \<Rightarrow> string" where
  "join sep [] = []"
| "join sep [x] = x"
| "join sep (x # y # ys) = x @ sep # join sep (y # ys)"

text \<open>
  \<^verbatim>\<open>WORD_FORMAT.format(**attrs)\<close>, where \<^verbatim>\<open>WORD_FORMAT\<close> is
  \<^verbatim>\<open>ATTRIBUTE_SEPARATOR.join("{"+s+"}" for s in (["wordnum"] + WORD_ATTRIBUTES))\<close>.
\<close>

definition WORD_FORMAT :: "string \<Rightarrow> string \<Rightarrow> string \<Rightarrow> string \<Rightarrow> string \<Rightarrow> string" where
  "WORD_FORMAT wordnum surface lemma pos syn =
     join ATTRIBUTE_SEPARATOR [wordnum, surface, lemma, pos, syn]"

text \<open>
  The encoding loop of \<^verbatim>\<open>matches\<close> (\<^verbatim>\<open>for word in words: ...\<close>): it appends the
  running length \<^verbatim>\<open>wordstringlen\<close> to \<^verbatim>\<open>positions\<close> and the formatted word to
  \<^verbatim>\<open>wordstringlist\<close>; \<^verbatim>\<open>seplen\<close> is \<^verbatim>\<open>len(WORD_SEPARATOR)\<close>, that is 1.
\<close>

fun encode_words :: "word list \<Rightarrow> nat \<Rightarrow> int \<Rightarrow> int list \<times> string list" where
  "encode_words [] wordnum wordstringlen = ([], [])"
| "encode_words (w # ws) wordnum wordstringlen =
     (let wordstringelem =
            WORD_FORMAT (str_nat wordnum) (w_surface w) (w_lemma w) (w_pos w)
              ('';'' @ w_syn w @ '';'');
          (positions, wordstringlist) =
            encode_words ws (wordnum + 1) (wordstringlen + int (length wordstringelem) + 1)
      in (wordstringlen # positions, wordstringelem # wordstringlist))"

definition encode_positions :: "word list \<Rightarrow> int list" where
  "encode_positions words = fst (encode_words words 1 1)"

definition encode_wordstring :: "word list \<Rightarrow> string" where
  "encode_wordstring words =
     WORD_SEPARATOR # join WORD_SEPARATOR (snd (encode_words words 1 1)) @ [WORD_SEPARATOR]"

section \<open>Regular expressions: the part of Python's \<^verbatim>\<open>re\<close> the patterns use\<close>

text \<open>
  The pattern compiler builds the text of a regular expression and hands it to
  \<^verbatim>\<open>re.compile\<close>; the matcher calls \<^verbatim>\<open>match\<close> on the result. The expressions it
  builds use escaped literal characters, character classes, named groups
  \<^verbatim>\<open>(?P<name>...)\<close>, back-references \<^verbatim>\<open>(?P=name)\<close>, look-aheads \<^verbatim>\<open>(?=...)\<close> and
  \<^verbatim>\<open>(?!...)\<close>, alternation and a non-capturing group followed by the text of a repeat
  command. An expression is kept as the tree that \<^verbatim>\<open>re\<close> parses the text into:

  \<^item> \<open>Chr c\<close>: the escaped literal character \<open>c\<close>;
  \<^item> \<open>In cs\<close>, \<open>NotIn cs\<close>: the classes \<^verbatim>\<open>[cs]\<close> and \<^verbatim>\<open>[^cs]\<close>;
  \<^item> \<open>Eps\<close>: the empty expression; \<open>Cat\<close>: concatenation; \<open>Alt\<close>: \<^verbatim>\<open>|\<close>;
  \<^item> \<open>Quant r q\<close>: \<^verbatim>\<open>(?:r)\<close> followed by the text \<open>q\<close> of a repeat command;
  \<^item> \<open>Grp n r\<close>: \<^verbatim>\<open>(?P<n>r)\<close>; \<open>Bref n\<close>: \<^verbatim>\<open>(?P=n)\<close>;
  \<^item> \<open>Look True r\<close>: \<^verbatim>\<open>(?=r)\<close>; \<open>Look False r\<close>: \<^verbatim>\<open>(?!r)\<close>.

  Every group has a name, as every group that the compiler writes has one.
\<close>

datatype rx =
    Chr char
  | In "char list"
  | NotIn "char list"
  | Eps
  | Cat rx rx
  | Alt rx rx
  | Quant rx string
  | Grp string rx
  | Bref string
  | Look bool rx

text \<open>
  The engine is a backtracking matcher in continuation-passing style. The groups matched
  so far are a list of names with their spans, the latest first; a continuation is what
  remains to be matched, from a position and with the groups matched so far; the result
  is the end of the match with its groups, or \<open>None\<close>.
\<close>

type_synonym genv = "(string \<times> nat \<times> nat) list"
type_synonym mres = "(nat \<times> genv) option"
type_synonym cont = "nat \<Rightarrow> genv \<Rightarrow> mres"

text \<open>
  The text of a repeat command as \<^verbatim>\<open>re\<close> reads it after the closing parenthesis of the
  group: \<^verbatim>\<open>*\<close>, \<^verbatim>\<open>+\<close>, \<^verbatim>\<open>?\<close>, \<^verbatim>\<open>{m,n}\<close>, \<^verbatim>\<open>{m,}\<close>, \<^verbatim>\<open>{,n}\<close> or \<^verbatim>\<open>{m}\<close> give the
  bounds of the repetition; the rest of the text is read as literal characters. A text
  that begins with none of these is literal as a whole.
\<close>

definition is_digit :: "char \<Rightarrow> bool" where
  "is_digit c \<longleftrightarrow> c \<in> set ''0123456789''"

definition digit_val :: "char \<Rightarrow> nat" where
  "digit_val c = of_char c - 48"

definition int_of_digits :: "string \<Rightarrow> nat" where
  "int_of_digits ds = foldl (\<lambda>a c. 10 * a + digit_val c) 0 ds"

definition parse_repeat :: "string \<Rightarrow> (nat \<times> nat option \<times> string) option" where
  "parse_repeat q =
     (case q of
        [] \<Rightarrow> None
      | c # rest \<Rightarrow>
          if c = CHR ''*'' then Some (0, None, rest)
          else if c = CHR ''+'' then Some (1, None, rest)
          else if c = CHR ''?'' then Some (0, Some 1, rest)
          else if c = CHR ''{'' then
            (let lo = takeWhile is_digit rest;
                 a1 = dropWhile is_digit rest
             in if a1 \<noteq> [] \<and> hd a1 = CHR '','' then
                  (let hi = takeWhile is_digit (tl a1);
                       a2 = dropWhile is_digit (tl a1);
                       mn = (if lo = [] then 0 else int_of_digits lo)
                   in if a2 \<noteq> [] \<and> hd a2 = CHR ''}'' then
                        (if hi = [] then Some (mn, None, tl a2)
                         else Some (mn, Some (int_of_digits hi), tl a2))
                      else None)
                else if a1 \<noteq> [] \<and> hd a1 = CHR ''}'' \<and> lo \<noteq> [] then
                  Some (int_of_digits lo, Some (int_of_digits lo), tl a1)
                else None)
          else None)"

text \<open>
  A greedy repetition of \<open>body\<close>, at least \<open>lo\<close> and at most \<open>hi\<close> times: one more
  iteration is tried first, then the continuation. An iteration that matches the empty
  string is not repeated once the lower bound is reached. The first argument bounds the
  number of iterations; the length of the string left plus \<open>lo\<close> plus one always suffices.
\<close>

primrec rep_loop ::
  "nat \<Rightarrow> (cont \<Rightarrow> nat \<Rightarrow> genv \<Rightarrow> mres) \<Rightarrow> nat \<Rightarrow> nat option \<Rightarrow> cont \<Rightarrow> nat \<Rightarrow> genv \<Rightarrow> mres"
where
  "rep_loop 0 body lo hi k i e = (if lo = 0 then k i e else None)"
| "rep_loop (Suc fuel) body lo hi k i e =
     (if hi = Some 0 then k i e
      else (case body (\<lambda>j e'. if j = i \<and> lo = 0 then None
                               else rep_loop fuel body (lo - 1) (map_option (\<lambda>h. h - 1) hi) k j e')
                   i e of
              Some res \<Rightarrow> Some res
            | None \<Rightarrow> if lo = 0 then k i e else None))"

text \<open>\<^verbatim>\<open>re.escape(t)\<close>: the characters of \<open>t\<close>, each one literal.\<close>

primrec lits :: "string \<Rightarrow> rx" where
  "lits [] = Eps"
| "lits (c # cs) = Cat (Chr c) (lits cs)"

text \<open>
  \<open>run r s k i e\<close>: match \<open>r\<close> on the string \<open>s\<close> from position \<open>i\<close> with the groups \<open>e\<close>,
  then go on with \<open>k\<close>. Alternatives are tried from left to right, and the first complete
  match is the result.
\<close>

primrec run :: "rx \<Rightarrow> string \<Rightarrow> cont \<Rightarrow> nat \<Rightarrow> genv \<Rightarrow> mres" where
  "run (Chr c) s k i e = (if i < length s \<and> s ! i = c then k (Suc i) e else None)"
| "run (In cs) s k i e = (if i < length s \<and> s ! i \<in> set cs then k (Suc i) e else None)"
| "run (NotIn cs) s k i e = (if i < length s \<and> s ! i \<notin> set cs then k (Suc i) e else None)"
| "run Eps s k i e = k i e"
| "run (Cat r1 r2) s k i e = run r1 s (\<lambda>j e'. run r2 s k j e') i e"
| "run (Alt r1 r2) s k i e =
     (case run r1 s k i e of Some res \<Rightarrow> Some res | None \<Rightarrow> run r2 s k i e)"
| "run (Quant r q) s k i e =
     (case parse_repeat q of
        Some (lo, hi, rest) \<Rightarrow>
          rep_loop (length s - i + lo + 1) (run r s) lo hi
            (\<lambda>j e'. if take (length rest) (drop j s) = rest then k (j + length rest) e'
                     else None) i e
      | None \<Rightarrow>
          run r s (\<lambda>j e'. if take (length q) (drop j s) = q then k (j + length q) e' else None) i e)"
| "run (Grp n r) s k i e = run r s (\<lambda>j e'. k j ((n, (i, j)) # e')) i e"
| "run (Bref n) s k i e =
     (case map_of e n of
        None \<Rightarrow> None
      | Some (b, f) \<Rightarrow>
          (let t = take (f - b) (drop b s)
           in if take (length t) (drop i s) = t then k (i + length t) e else None))"
| "run (Look positive r) s k i e =
     (case run r s (\<lambda>j e'. Some (j, e')) i e of
        Some (j, e') \<Rightarrow> if positive then k i e' else None
      | None \<Rightarrow> if positive then None else k i e)"

text \<open>
  The names of the groups in the order of their opening parentheses: the group with the
  \<open>n\<close>-th name has the number \<open>n\<close>, counted from 1 (\<^verbatim>\<open>groupindex\<close>).
\<close>

primrec group_names :: "rx \<Rightarrow> string list" where
  "group_names (Chr c) = []"
| "group_names (In cs) = []"
| "group_names (NotIn cs) = []"
| "group_names Eps = []"
| "group_names (Cat r1 r2) = group_names r1 @ group_names r2"
| "group_names (Alt r1 r2) = group_names r1 @ group_names r2"
| "group_names (Quant r q) = group_names r"
| "group_names (Grp n r) = n # group_names r"
| "group_names (Bref n) = []"
| "group_names (Look positive r) = group_names r"


section \<open>The compiled pattern as the matcher sees it\<close>

text \<open>
  A match object of Python's \<^verbatim>\<open>re\<close>: \<^verbatim>\<open>match_result.span(g)\<close> for group number
  \<open>g\<close>, group 0 being the whole match; a group that took no part in the match has span
  \<open>(-1, -1)\<close>. \<^verbatim>\<open>start()\<close> and \<^verbatim>\<open>end()\<close> are the components of \<open>span(0)\<close>.

  \<^verbatim>\<open>compiled_pattern.match(string, pos, endpos)\<close> is a function of the string and the two
  bounds that returns a match object or \<^verbatim>\<open>None\<close>.
\<close>

type_synonym mobj = "nat \<Rightarrow> int \<times> int"

type_synonym engine = "string \<Rightarrow> int \<Rightarrow> int \<Rightarrow> mobj option"

text \<open>
  The fields of a \<^verbatim>\<open>PatternMatcher\<close> that \<^verbatim>\<open>matches\<close> reads: the compiled pattern,
  \<^verbatim>\<open>_strid2numid\<close> (a dict) and \<^verbatim>\<open>ignored_sub_numids\<close> (a
  \<^verbatim>\<open>defaultdict(list)\<close>: a missing key reads as the empty list).
\<close>

record matcher =
  compiled_pattern :: engine
  strid2numid :: "(string \<times> nat) list"
  ignored_sub_numids :: "nat \<Rightarrow> nat list"

text \<open>
  What the matcher relies on from \<^verbatim>\<open>re\<close>: a match found by
  \<^verbatim>\<open>match(string, pos, endpos)\<close> ends at or before \<open>endpos\<close>, and it ends after \<open>pos\<close>:
  it is not empty, because every compiled pattern begins with the literal
  \<^verbatim>\<open>WORD_SEPARATOR\<close> (\<^verbatim>\<open>self.pat_pieces = [self.WORD_SEPARATOR]\<close>).
\<close>

definition re_ok :: "engine \<Rightarrow> bool" where
  "re_ok re \<longleftrightarrow>
     (\<forall>s pos endpos mr. re s pos endpos = Some mr \<longrightarrow>
        pos < snd (mr 0) \<and> snd (mr 0) \<le> endpos)"

text \<open>
  \<^verbatim>\<open>match(string, pos, endpos)\<close> of a compiled expression: both bounds are brought into
  \<open>[0, len(string)]\<close>, the string is cut at \<open>endpos\<close>, nothing is found when \<open>endpos\<close> is
  less than \<open>pos\<close>, and the match has to start at \<open>pos\<close>. The match object gives the span
  of the whole match for group 0 and, for group \<open>g\<close>, the span of the group with the
  \<open>g\<close>-th name, or \<open>(-1, -1)\<close> when that group matched nothing.
\<close>

definition clamp_pos :: "string \<Rightarrow> int \<Rightarrow> nat" where
  "clamp_pos s pos = nat (min (max pos 0) (int (length s)))"

definition mobj_of :: "string list \<Rightarrow> nat \<Rightarrow> nat \<Rightarrow> genv \<Rightarrow> mobj" where
  "mobj_of names p j env =
     (\<lambda>g. if g = 0 then (int p, int j)
          else (case (if g \<le> length names then map_of env (names ! (g - 1)) else None) of
                  None \<Rightarrow> (- 1, - 1)
                | Some (b, f) \<Rightarrow> (int b, int f)))"

definition rx_match :: "rx \<Rightarrow> string \<Rightarrow> int \<Rightarrow> int \<Rightarrow> mobj option" where
  "rx_match r s pos endpos =
     (let p = clamp_pos s pos;
          e = clamp_pos s endpos
      in if e < p then None
         else (case run r (take e s) (\<lambda>j env. Some (j, env)) p [] of
                 None \<Rightarrow> None
               | Some (j, env) \<Rightarrow> Some (mobj_of (group_names r) p j env)))"

text \<open>
  A matcher that only moves forward and stays inside the string: whenever it succeeds, its
  continuation was called at a position between the start and the end of the string.
\<close>

definition advances :: "string \<Rightarrow> (cont \<Rightarrow> nat \<Rightarrow> genv \<Rightarrow> mres) \<Rightarrow> bool" where
  "advances s f \<longleftrightarrow>
     (\<forall>k i e res. i \<le> length s \<longrightarrow> f k i e = Some res \<longrightarrow>
        (\<exists>j e'. i \<le> j \<and> j \<le> length s \<and> k j e' = Some res))"

section \<open>The match executor (PatternMatcher.matches, \_matches\_at)\<close>

text \<open>
  The exceptions: the two of \<^verbatim>\<open>matches\<close>, \<^verbatim>\<open>Id '...' defined twice\<close> of \<^verbatim>\<open>_parse_w\<close>,
  the failed \<^verbatim>\<open>assert\<close> of \<^verbatim>\<open>_parse_seq\<close>, those that Python raises for a failed
  unpacking, a missing key, a missing index or a missing attribute, and the error of
  \<^verbatim>\<open>re.compile\<close>.
\<close>

datatype error =
    AllRequiresOverlapping
  | BadMatchDistance string
  | IdDefinedTwice string
  | AssertionError
  | ValueError
  | KeyError
  | ReError string
  | IndexError
  | AttributeError

text \<open>
  The name of the slot of an id: \<^verbatim>\<open>"id_" + strid\<close> in \<^verbatim>\<open>strids2numids\<close>,
  \<^verbatim>\<open>"id_%s" % seq_strid\<close> in \<^verbatim>\<open>_parse_seq\<close> and \<^verbatim>\<open>"(?P<id_{}>{})"\<close> in \<^verbatim>\<open>_parse_w\<close>.
\<close>

definition id_slot :: "string \<Rightarrow> string" where
  "id_slot strid = ''id_'' @ strid"

text \<open>
  A yielded pair \<^verbatim>\<open>(Ngram([words[i].copy() for i in wordnums]), wordnums)\<close>.

  Modelled from the spec: the class \<^verbatim>\<open>Ngram\<close> (base/ngram.py) is not among the sources.
  The spec describes the first component of a MatchResult as the ordered sequence of the
  copies of the matched tokens; an \<^verbatim>\<open>Ngram\<close> is that list of words, and its \<^verbatim>\<open>len\<close> is the
  number of its words (base/ngramtree.py compares \<^verbatim>\<open>len(ngram)\<close> with the index \<^verbatim>\<open>_i\<close>
  of \<^verbatim>\<open>ngram[_i]\<close>). The copy of a word is the word.
\<close>

type_synonym match = "word list \<times> nat list"

text \<open>
  \<^verbatim>\<open>strids2numids\<close>: the slot of each requested id, in the caller's order; an id the
  pattern does not define is skipped (with a warning that is logged once).
\<close>

definition strids2numids :: "matcher \<Rightarrow> string list \<Rightarrow> nat list" where
  "strids2numids m strid_order =
     List.map_filter (\<lambda>strid. map_of (strid2numid m) (id_slot strid)) strid_order"

text \<open>
  \<^verbatim>\<open>bisect.bisect_left(a, x)\<close> of the standard library, on a sorted list: the number
  of entries smaller than \<open>x\<close>. The list of positions is strictly increasing.
\<close>

definition bisect_left :: "int list \<Rightarrow> int \<Rightarrow> nat" where
  "bisect_left a x = length (takeWhile (\<lambda>e. e < x) a)"

text \<open>
  \<^verbatim>\<open>pos2wordnum = {p:i for (i,p) in enumerate(positions)}\<close>: a later entry replaces an
  earlier one with the same key.
\<close>

definition pos2wordnum :: "int list \<Rightarrow> int \<Rightarrow> nat option" where
  "pos2wordnum positions = map_of (rev (zip positions [0..<length positions]))"

text \<open>
  The loop \<^verbatim>\<open>for pos in itertools.islice(positions, i, None)\<close> with its \<^verbatim>\<open>break\<close>;
  the second argument is the part of \<^verbatim>\<open>positions\<close> still to visit. Every key looked up
  in \<^verbatim>\<open>pos2wordnum\<close> is an entry of \<^verbatim>\<open>positions\<close>.
\<close>

fun scan_positions :: "int list \<Rightarrow> int list \<Rightarrow> (int \<times> int) list \<Rightarrow> int \<Rightarrow> nat list" where
  "scan_positions positions [] ignored_ranges p_end = []"
| "scan_positions positions (p # rest) ignored_ranges p_end =
     (if p \<ge> p_end then []
      else (if \<not> list_ex (\<lambda>(p_ignored_beg, p_ignored_end).
                      p_ignored_beg \<le> p \<and> p < p_ignored_end) ignored_ranges
            then [the (pos2wordnum positions p)] else [])
           @ scan_positions positions rest ignored_ranges p_end)"

text \<open>The body of \<^verbatim>\<open>for numid in numid_order\<close>: the indices appended for one slot.\<close>

definition wordnums_for :: "matcher \<Rightarrow> int list \<Rightarrow> mobj \<Rightarrow> nat \<Rightarrow> nat list" where
  "wordnums_for m positions match_result numid =
     (let ignored_ranges = map match_result (ignored_sub_numids m numid);
          (p_beg, p_end) = match_result numid;
          i = bisect_left positions p_beg
      in scan_positions positions (drop i positions) ignored_ranges p_end)"

text \<open>
  \<^verbatim>\<open>_matches_at\<close>, consumed to the end by \<^verbatim>\<open>list(...)\<close> in \<^verbatim>\<open>matches\<close>. The
  \<^verbatim>\<open>while True\<close> loop has no bound of its own, so the result is optional: \<open>None\<close> is
  a loop that never ends.
\<close>

partial_function (option) matches_at ::
  "matcher \<Rightarrow> word list \<Rightarrow> string \<Rightarrow> int \<Rightarrow> int \<Rightarrow> int list \<Rightarrow> nat list \<Rightarrow> bool
     \<Rightarrow> match list option"
where
  "matches_at m words wordstring current_start current_end positions numid_order anchor_end =
     (case compiled_pattern m wordstring (current_start - 1) current_end of
        None \<Rightarrow> Some []
      | Some match_result \<Rightarrow>
          (let wordnums = concat (map (wordnums_for m positions match_result) numid_order);
               y = (map (\<lambda>i. words ! i) wordnums, wordnums)
           in if anchor_end then Some [y]
              else do {
                rest \<leftarrow> matches_at m words wordstring current_start (snd (match_result 0) - 1)
                          positions numid_order anchor_end;
                Some (y # rest) }))"

declare matches_at.simps [code]

text \<open>
  The selection policy: the statements of the scan loop from \<^verbatim>\<open>increment = 1\<close> up to
  \<^verbatim>\<open>i += increment\<close>. The result is the raised error, or what the iteration yields
  together with \<^verbatim>\<open>increment\<close>. \<^verbatim>\<open>len\<close> of an \<^verbatim>\<open>Ngram\<close> is the number of its words.
\<close>

definition select_matches :: "string \<Rightarrow> bool \<Rightarrow> match list \<Rightarrow> error + (match list \<times> nat)" where
  "select_matches match_distance overlapping matches_here =
     (if match_distance = ''All'' then
        (if \<not> overlapping then Inl AllRequiresOverlapping
         else Inr (matches_here, 1))
      else if match_distance = ''Longest'' then
        (if matches_here \<noteq> [] then
           Inr ([hd matches_here],
                if \<not> overlapping then length (fst (hd matches_here)) else 1)
         else Inr ([], 1))
      else if match_distance = ''Shortest'' then
        (if matches_here \<noteq> [] then
           Inr ([last matches_here],
                if \<not> overlapping then length (fst (last matches_here)) else 1)
         else Inr ([], 1))
      else Inl (BadMatchDistance match_distance))"

text \<open>
  The generator. Its state is the cursor \<open>i\<close>; the first argument bounds the number of
  iterations of \<^verbatim>\<open>while i < len(positions)\<close> that are run. The result is what has been
  yielded so far and where the generator stands: exhausted, stopped by an exception, or
  still running.
\<close>

datatype status = Exhausted | Raised error | Running

fun matches_loop ::
  "nat \<Rightarrow> matcher \<Rightarrow> word list \<Rightarrow> string \<Rightarrow> int list \<Rightarrow> nat list \<Rightarrow> string \<Rightarrow> bool \<Rightarrow> bool \<Rightarrow> bool
     \<Rightarrow> nat \<Rightarrow> match list \<times> status"
where
  "matches_loop fuel m words wordstring positions numid_order match_distance overlapping
       anchor_begin anchor_end i =
     (if i < length positions then
        (case fuel of
           0 \<Rightarrow> ([], Running)
         | Suc fuel' \<Rightarrow>
            (case matches_at m words wordstring (positions ! i) (int (length wordstring))
                    positions numid_order anchor_end of
               None \<Rightarrow> ([], Running)
             | Some matches_here \<Rightarrow>
                (case select_matches match_distance overlapping matches_here of
                   Inl e \<Rightarrow> ([], Raised e)
                 | Inr (ys, increment) \<Rightarrow>
                     if anchor_begin then (ys, Exhausted)
                     else (let (rest, st) =
                                 matches_loop fuel' m words wordstring positions numid_order
                                   match_distance overlapping anchor_begin anchor_end
                                   (i + increment)
                           in (ys @ rest, st)))))
      else ([], Exhausted))"

declare matches_loop.simps [simp del]

definition matches ::
  "nat \<Rightarrow> matcher \<Rightarrow> word list \<Rightarrow> string \<Rightarrow> bool \<Rightarrow> string list \<Rightarrow> bool \<Rightarrow> bool
     \<Rightarrow> match list \<times> status"
where
  "matches fuel m words match_distance overlapping id_order anchor_begin anchor_end =
     (let numid_order = strids2numids m id_order;
          positions = encode_positions words;
          wordstring = encode_wordstring words
      in matches_loop fuel m words wordstring positions numid_order match_distance
           overlapping anchor_begin anchor_end 0)"

section \<open>The pattern tree and the pattern compiler (PatternMatcher.\_\_init\_\_)\<close>

text \<open>
  The properties of a word pattern: \<^verbatim>\<open>LiteralProp(value)\<close>,
  \<^verbatim>\<open>StarredWildcardProp(value)\<close>, \<^verbatim>\<open>RegexProp(value, flags)\<close> and
  \<^verbatim>\<open>BackrefProp(w_strid, prop)\<close>. A \<^verbatim>\<open>RegexProp\<close> holds its \<^verbatim>\<open>value\<close> and the
  expression that \<^verbatim>\<open>re\<close> parses its \<^verbatim>\<open>to_base_regex()\<close> into.

  \<^verbatim>\<open>positive_props\<close> and \<^verbatim>\<open>negative_props\<close> of a \<^verbatim>\<open>WordPattern\<close> are dicts from the
  name of an attribute to the list of its properties, in the order of \<^verbatim>\<open>add_prop\<close>.
\<close>

datatype word_prop =
    LiteralProp string
  | StarredWildcardProp string
  | RegexProp string rx
  | BackrefProp string string

type_synonym props = "(string \<times> word_prop list) list"

text \<open>
  The pattern tree: \<^verbatim>\<open>WordPattern(w_strid)\<close> with its two dicts,
  \<^verbatim>\<open>SequencePattern(seq_strid, repeat, ignore, subpatterns)\<close> and
  \<^verbatim>\<open>EitherPattern(subpatterns)\<close>. An id and a repeat command are a string or
  \<^verbatim>\<open>None\<close>. Every node is an object of its own.
\<close>

datatype pattern =
    WordPattern "string option" props props
  | SequencePattern "string option" "string option" bool "pattern list"
  | EitherPattern "pattern list"

text \<open>
  The warnings of the compiler (\<^verbatim>\<open>ctxinfo.warn\<close>): an id or \<^verbatim>\<open>ignore\<close> under a repeat
  scope, an invalid repeat command, and a pattern that matches the empty string.
\<close>

datatype warning =
    ScopeRepeatWarning
  | InvalidRepeat string
  | MatchesEmptyString

text \<open>
  The fields of the \<^verbatim>\<open>PatternMatcher\<close> that the traversal updates. \<^verbatim>\<open>forepattern_ids\<close>
  and \<^verbatim>\<open>strid2parent\<close> are dicts, the latest entry first. \<^verbatim>\<open>ignored2strid\<close> is a
  dict from the ignored sequence objects to the names of their slots; only its size and
  its values are read, so it is the list of the names in the order of their insertion.
  \<^verbatim>\<open>pat_pieces\<close> is not a field here: the functions of the traversal return the
  expression whose text they append. The warnings are collected in the order they are
  issued.
\<close>

record pstate =
  temp_id :: nat
  defined_w_ids :: "string list"
  forepattern_ids :: "(string \<times> string) list"
  strid2parent :: "(string \<times> string) list"
  ignored2strid :: "string list"
  warnings :: "warning list"

text \<open>\<^verbatim>\<open>ATTRIBUTE_WILDCARD = "[^" + ATTRIBUTE_SEPARATOR + WORD_SEPARATOR + "]*"\<close>.\<close>

definition ATTRIBUTE_WILDCARD :: rx where
  "ATTRIBUTE_WILDCARD = Quant (NotIn [ATTRIBUTE_SEPARATOR, WORD_SEPARATOR]) ''*''"

text \<open>
  \<^verbatim>\<open>to_base_regex\<close>: the escaped value of a \<^verbatim>\<open>LiteralProp\<close>; the escaped value of a
  \<^verbatim>\<open>StarredWildcardProp\<close> with every \<^verbatim>\<open>*\<close> replaced by the wildcard; the expression of a
  \<^verbatim>\<open>RegexProp\<close>; \<^verbatim>\<open>(?P=wid_{}_{})\<close> for a \<^verbatim>\<open>BackrefProp\<close>. The two look-aheads wrap it.
\<close>

primrec starred :: "string \<Rightarrow> rx" where
  "starred [] = Eps"
| "starred (c # cs) = Cat (if c = CHR ''*'' then ATTRIBUTE_WILDCARD else Chr c) (starred cs)"

fun to_base_regex :: "word_prop \<Rightarrow> rx" where
  "to_base_regex (LiteralProp v) = lits v"
| "to_base_regex (StarredWildcardProp v) = starred v"
| "to_base_regex (RegexProp v r) = r"
| "to_base_regex (BackrefProp w_strid prop) = Bref (''wid_'' @ w_strid @ ''_'' @ prop)"

definition to_positive_lookahead_regex :: "word_prop \<Rightarrow> rx" where
  "to_positive_lookahead_regex p = Look True (to_base_regex p)"

definition to_negative_lookahead_regex :: "word_prop \<Rightarrow> rx" where
  "to_negative_lookahead_regex p = Look False (to_base_regex p)"

text \<open>\<^verbatim>\<open>propval.value\<close>: a \<^verbatim>\<open>BackrefProp\<close> has no such attribute.\<close>

fun prop_value :: "word_prop \<Rightarrow> error + string" where
  "prop_value (LiteralProp v) = Inr v"
| "prop_value (StarredWildcardProp v) = Inr v"
| "prop_value (RegexProp v r) = Inr v"
| "prop_value (BackrefProp w_strid prop) = Inl AttributeError"

text \<open>The concatenation and the alternation of a list of expressions.\<close>

fun cat_list :: "rx list \<Rightarrow> rx" where
  "cat_list [] = Eps"
| "cat_list [r] = r"
| "cat_list (r # rs) = Cat r (cat_list rs)"

fun alt_list :: "rx list \<Rightarrow> rx" where
  "alt_list [] = Eps"
| "alt_list [r] = r"
| "alt_list (r # rs) = Alt r (alt_list rs)"

text \<open>\<^verbatim>\<open>value.split(":")\<close>.\<close>

fun split_on :: "char \<Rightarrow> string \<Rightarrow> string list" where
  "split_on sep [] = [[]]"
| "split_on sep (c # cs) =
     (if c = sep then [] # split_on sep cs
      else (case split_on sep cs of
              [] \<Rightarrow> [[c]]
            | x # xs \<Rightarrow> (c # x) # xs))"

text \<open>
  The truth value of an optional string in a condition (\<^verbatim>\<open>if seq_strid:\<close>): neither
  \<^verbatim>\<open>None\<close> nor the empty string; and the string itself.
\<close>

definition text_of :: "string option \<Rightarrow> string" where
  "text_of s = (case s of None \<Rightarrow> [] | Some t \<Rightarrow> t)"

definition truthy :: "string option \<Rightarrow> bool" where
  "truthy s \<longleftrightarrow> s \<noteq> None \<and> s \<noteq> Some []"

text \<open>\<^verbatim>\<open>_check_scope_repeat\<close>: a warning when \<^verbatim>\<open>scope_repeat\<close> is not \<^verbatim>\<open>None\<close>.\<close>

definition check_scope_repeat :: "pattern option \<Rightarrow> pstate \<Rightarrow> pstate" where
  "check_scope_repeat scope_repeat st =
     (if scope_repeat \<noteq> None then st\<lparr>warnings := warnings st @ [ScopeRepeatWarning]\<rparr> else st)"

text \<open>
  The body of the loop \<^verbatim>\<open>for attr in WORD_ATTRIBUTES\<close> of \<^verbatim>\<open>_parse_w\<close>: the negative
  look-aheads, then the positive look-aheads of the properties after the first, then the
  first property; the wildcard when the attribute has no positive property.
\<close>

definition attr_regex :: "props \<Rightarrow> props \<Rightarrow> string \<Rightarrow> error + rx" where
  "attr_regex positive_props negative_props attr =
     (let negs = map to_negative_lookahead_regex
                   (case map_of negative_props attr of None \<Rightarrow> [] | Some ps \<Rightarrow> ps)
      in case map_of positive_props attr of
           None \<Rightarrow> Inr (cat_list (negs @ [ATTRIBUTE_WILDCARD]))
         | Some [] \<Rightarrow> Inl IndexError
         | Some (propval # rest) \<Rightarrow>
             Inr (cat_list (negs @ map to_positive_lookahead_regex rest @ [to_base_regex propval])))"

text \<open>\<^verbatim>\<open>WORD_FORMAT.format(**attrs)\<close> on expressions.\<close>

definition word_format_rx :: "rx \<Rightarrow> rx \<Rightarrow> rx \<Rightarrow> rx \<Rightarrow> rx \<Rightarrow> rx" where
  "word_format_rx wordnum surface lemma pos syn =
     cat_list [wordnum, Chr ATTRIBUTE_SEPARATOR, surface, Chr ATTRIBUTE_SEPARATOR, lemma,
               Chr ATTRIBUTE_SEPARATOR, pos, Chr ATTRIBUTE_SEPARATOR, syn]"

text \<open>
  \<^verbatim>\<open>_parse_w\<close>, the block \<^verbatim>\<open>if "syndep" in w_patobj.positive_props\<close>: the first property
  alone is read; its value is split into the relation and the id it refers to, and
  \<^verbatim>\<open>attrs["syn"]\<close> is replaced by a back-reference to the position of a word already
  defined, or by a new group that a later word will refer back to. The name of the
  relation is taken as literal text.
\<close>

definition parse_syndep ::
  "props \<Rightarrow> rx \<Rightarrow> pstate \<Rightarrow> error + (rx \<times> pstate)"
where
  "parse_syndep positive_props syn st =
     (case map_of positive_props ''syndep'' of
        None \<Rightarrow> Inr (syn, st)
      | Some [] \<Rightarrow> Inl IndexError
      | Some (propval # rest) \<Rightarrow>
          (case prop_value propval of
             Inl e \<Rightarrow> Inl e
           | Inr v \<Rightarrow>
               (case split_on CHR '':'' v of
                  [deptype, depref] \<Rightarrow>
                    if depref \<in> set (defined_w_ids st) then
                      Inr (cat_list [ATTRIBUTE_WILDCARD, lits ('';'' @ deptype @ '':''),
                                     Bref (''wid_'' @ depref @ ''_wordnum''), Chr CHR '';'',
                                     ATTRIBUTE_WILDCARD], st)
                    else
                      (let foredep = ''foredep_'' @ str_nat (temp_id st)
                       in Inr (cat_list [ATTRIBUTE_WILDCARD, lits ('';'' @ deptype @ '':''),
                                         Grp (''foreid_'' @ foredep)
                                           (Quant (In ''0123456789'') ''*''),
                                         Chr CHR '';'', ATTRIBUTE_WILDCARD],
                               st\<lparr>temp_id := temp_id st + 1,
                                  forepattern_ids := (depref, foredep) # forepattern_ids st\<rparr>))
                | _ \<Rightarrow> Inl ValueError)))"

text \<open>
  \<^verbatim>\<open>_parse_w\<close>. A word with an id wraps each attribute in a group, is refused when the id
  is already defined, and is recorded in \<^verbatim>\<open>defined_w_ids\<close>, before the \<^verbatim>\<open>syndep\<close>
  property is read.
\<close>

definition parse_w ::
  "string option \<Rightarrow> props \<Rightarrow> props \<Rightarrow> string \<Rightarrow> pattern option \<Rightarrow> pstate \<Rightarrow> error + (rx \<times> pstate)"
where
  "parse_w w_strid positive_props negative_props parent_strid scope_repeat st =
     (case attr_regex positive_props negative_props ''surface'' of Inl e \<Rightarrow> Inl e | Inr surface \<Rightarrow>
      case attr_regex positive_props negative_props ''lemma'' of Inl e \<Rightarrow> Inl e | Inr lemma \<Rightarrow>
      case attr_regex positive_props negative_props ''pos'' of Inl e \<Rightarrow> Inl e | Inr pos \<Rightarrow>
      case attr_regex positive_props negative_props ''syn'' of Inl e \<Rightarrow> Inl e | Inr syn \<Rightarrow>
        (let wordnum = ATTRIBUTE_WILDCARD
         in if truthy w_strid then
              (let wid = text_of w_strid;
                   st1 = check_scope_repeat scope_repeat st;
                   wordnum1 = (case map_of (forepattern_ids st1) wid of
                                 Some foredep \<Rightarrow> Bref (''foreid_'' @ foredep)
                               | None \<Rightarrow> wordnum);
                   wrap = (\<lambda>attr r. Grp (''wid_'' @ wid @ ''_'' @ attr) r)
               in if wid \<in> set (defined_w_ids st1) then Inl (IdDefinedTwice wid)
                  else
                    (case parse_syndep positive_props (wrap ''syn'' syn)
                            (st1\<lparr>defined_w_ids := defined_w_ids st1 @ [wid]\<rparr>) of
                       Inl e \<Rightarrow> Inl e
                     | Inr (syn2, st2) \<Rightarrow>
                         Inr (Grp (id_slot wid)
                                (Cat (word_format_rx (wrap ''wordnum'' wordnum1)
                                        (wrap ''surface'' surface) (wrap ''lemma'' lemma)
                                        (wrap ''pos'' pos) syn2)
                                     (Chr WORD_SEPARATOR)),
                              st2)))
            else
              (case parse_syndep positive_props syn st of
                 Inl e \<Rightarrow> Inl e
               | Inr (syn2, st2) \<Rightarrow>
                   Inr (Cat (word_format_rx wordnum surface lemma pos syn2)
                            (Chr WORD_SEPARATOR),
                        st2))))"

text \<open>
  The test of the repeat command in \<^verbatim>\<open>_parse_seq\<close>:
  \<^verbatim>\<open>re.match(r"^\{[0-9]*,[0-9]*\}|\{[0-9]+\}$", repeat)\<close>, that is a text that begins with
  \<^verbatim>\<open>{m,n}\<close>, or that is \<^verbatim>\<open>{m}\<close> (a newline may follow).
\<close>

definition repeat_re_match :: "string \<Rightarrow> bool" where
  "repeat_re_match q \<longleftrightarrow>
     (case q of
        [] \<Rightarrow> False
      | c # rest \<Rightarrow>
          c = CHR ''{'' \<and>
          (let d1 = takeWhile is_digit rest;
               a1 = dropWhile is_digit rest
           in (a1 \<noteq> [] \<and> hd a1 = CHR '','' \<and>
                 (let a2 = dropWhile is_digit (tl a1) in a2 \<noteq> [] \<and> hd a2 = CHR ''}''))
              \<or> (d1 \<noteq> [] \<and> (a1 = ''}'' \<or> a1 = [CHR ''}'', CHR 0x0A]))))"

definition valid_repeat :: "string \<Rightarrow> bool" where
  "valid_repeat repeat \<longleftrightarrow>
     \<not> (repeat \<noteq> ''*'' \<and> repeat \<noteq> ''?'' \<and> repeat \<noteq> ''+'' \<and> \<not> repeat_re_match repeat)"

text \<open>
  \<^verbatim>\<open>_parse_seq\<close>, the statements before the loop over the subpatterns: the slot of an
  ignored sequence and the slot of a sequence with an id are opened and registered under
  their parent. The result is the parent of the subpatterns and the new tables.
\<close>

definition parse_seq_open ::
  "string option \<Rightarrow> bool \<Rightarrow> string \<Rightarrow> pattern option \<Rightarrow> pstate \<Rightarrow> error + (string \<times> pstate)"
where
  "parse_seq_open seq_strid ignore parent_strid scope_repeat st =
     (let ignore_strid = ''ignore_'' @ str_nat (length (ignored2strid st));
          st1 = (if ignore then
                   (check_scope_repeat scope_repeat st)
                     \<lparr>strid2parent := (ignore_strid, parent_strid) # strid2parent st,
                      ignored2strid := ignored2strid st @ [ignore_strid]\<rparr>
                 else st);
          parent1 = (if ignore then ignore_strid else parent_strid);
          id_strid = id_slot (text_of seq_strid)
      in if truthy seq_strid then
           (if CHR ''_'' \<in> set (text_of seq_strid) then Inl AssertionError
            else Inr (id_strid,
                      (check_scope_repeat scope_repeat st1)
                        \<lparr>strid2parent := (id_strid, parent1) # strid2parent st1\<rparr>))
         else Inr (parent1, st1))"

text \<open>
  \<^verbatim>\<open>_parse_seq\<close>, the statements after the loop: the pieces of the subpatterns are closed
  by the repeat command, the id slot and the ignore slot, innermost first. \<open>st\<close> is the
  state on entry (it numbers the ignore slot), \<open>st3\<close> the state after the subpatterns.
\<close>

definition parse_seq_close ::
  "string option \<Rightarrow> string option \<Rightarrow> bool \<Rightarrow> pstate \<Rightarrow> rx list \<Rightarrow> pstate \<Rightarrow> rx \<times> pstate"
where
  "parse_seq_close seq_strid repeat ignore st pieces st3 =
     (let ignore_strid = ''ignore_'' @ str_nat (length (ignored2strid st));
          id_strid = id_slot (text_of seq_strid);
          r1 = (if truthy repeat then Quant (cat_list pieces) (text_of repeat)
                else cat_list pieces);
          st4 = (if truthy repeat \<and> \<not> valid_repeat (text_of repeat)
                 then st3\<lparr>warnings := warnings st3 @ [InvalidRepeat (text_of repeat)]\<rparr>
                 else st3);
          r2 = (if truthy seq_strid then Grp id_strid r1 else r1);
          r3 = (if ignore then Grp ignore_strid r2 else r2)
      in (r3, st4))"

text \<open>
  \<^verbatim>\<open>_do_parse\<close> with \<^verbatim>\<open>_parse_seq\<close> and \<^verbatim>\<open>_parse_either\<close>, and the loop over the
  subpatterns. \<^verbatim>\<open>scope_repeat\<close> is replaced only when it is not \<^verbatim>\<open>None\<close> already.
\<close>

fun do_parse :: "pattern \<Rightarrow> string \<Rightarrow> pattern option \<Rightarrow> pstate \<Rightarrow> error + (rx \<times> pstate)"
and parse_subpatterns ::
  "pattern list \<Rightarrow> string \<Rightarrow> pattern option \<Rightarrow> pstate \<Rightarrow> error + (rx list \<times> pstate)"
where
  "do_parse (WordPattern w_strid positive_props negative_props) parent_strid scope_repeat st =
     parse_w w_strid positive_props negative_props parent_strid scope_repeat st"
| "do_parse (SequencePattern seq_strid repeat ignore subpatterns) parent_strid scope_repeat st =
     (case parse_seq_open seq_strid ignore parent_strid scope_repeat st of
        Inl e \<Rightarrow> Inl e
      | Inr (parent2, st2) \<Rightarrow>
          (case parse_subpatterns subpatterns parent2
                  (if scope_repeat \<noteq> None \<and> repeat \<noteq> Some []
                   then Some (SequencePattern seq_strid repeat ignore subpatterns)
                   else scope_repeat) st2 of
             Inl e \<Rightarrow> Inl e
           | Inr (pieces, st3) \<Rightarrow>
               Inr (parse_seq_close seq_strid repeat ignore st pieces st3)))"
| "do_parse (EitherPattern subpatterns) parent_strid scope_repeat st =
     (case parse_subpatterns subpatterns parent_strid scope_repeat st of
        Inl e \<Rightarrow> Inl e
      | Inr (pieces, st') \<Rightarrow> Inr (alt_list pieces, st'))"
| "parse_subpatterns [] parent_strid scope_repeat st = Inr ([], st)"
| "parse_subpatterns (subpat # rest) parent_strid scope_repeat st =
     (case do_parse subpat parent_strid scope_repeat st of
        Inl e \<Rightarrow> Inl e
      | Inr (piece, st') \<Rightarrow>
          (case parse_subpatterns rest parent_strid scope_repeat st' of
             Inl e \<Rightarrow> Inl e
           | Inr (pieces, st'') \<Rightarrow> Inr (piece # pieces, st'')))"

text \<open>
  What \<^verbatim>\<open>re.compile\<close> checks on the names while it parses, from left to right: a
  group name must not be defined twice, and a back-reference must name a group that is
  already defined and closed. The state is the list of the names defined so far and the
  list of those already closed. A repeat command whose lower bound exceeds its upper
  bound is refused too.
\<close>

primrec re_check ::
  "rx \<Rightarrow> string list \<times> string list \<Rightarrow> error + (string list \<times> string list)"
where
  "re_check (Chr c) g = Inr g"
| "re_check (In cs) g = Inr g"
| "re_check (NotIn cs) g = Inr g"
| "re_check Eps g = Inr g"
| "re_check (Cat r1 r2) g = (case re_check r1 g of Inl e \<Rightarrow> Inl e | Inr g' \<Rightarrow> re_check r2 g')"
| "re_check (Alt r1 r2) g = (case re_check r1 g of Inl e \<Rightarrow> Inl e | Inr g' \<Rightarrow> re_check r2 g')"
| "re_check (Quant r q) g =
     (case re_check r g of
        Inl e \<Rightarrow> Inl e
      | Inr g' \<Rightarrow>
          (case parse_repeat q of
             Some (lo, Some hi, rest) \<Rightarrow>
               if hi < lo then Inl (ReError ''min repeat greater than max repeat'') else Inr g'
           | _ \<Rightarrow> Inr g'))"
| "re_check (Grp n r) g =
     (if n \<in> set (fst g) then Inl (ReError ''redefinition of group name'')
      else (case re_check r (fst g @ [n], snd g) of
              Inl e \<Rightarrow> Inl e
            | Inr g' \<Rightarrow> Inr (fst g', snd g' @ [n])))"
| "re_check (Bref n) g =
     (if n \<notin> set (fst g) then Inl (ReError ''unknown group name'')
      else if n \<notin> set (snd g) then Inl (ReError ''cannot refer to an open group'')
      else Inr g)"
| "re_check (Look positive r) g = re_check r g"

text \<open>\<^verbatim>\<open>compiled_pattern.groupindex\<close>.\<close>

definition groupindex :: "rx \<Rightarrow> (string \<times> nat) list" where
  "groupindex r = zip (group_names r) [1..<Suc (length (group_names r))]"

text \<open>
  The loop \<^verbatim>\<open>while True\<close> of \<^verbatim>\<open>_fill_ignored_sub_numids\<close>: the slots visited from an
  ignored slot up to slot 0. It has no bound of its own, so its result is optional.
\<close>

partial_function (option) ancestors :: "(nat \<times> nat) list \<Rightarrow> nat \<Rightarrow> (error + nat list) option"
where
  "ancestors numid2parent ancestor =
     (if ancestor = 0 then Some (Inr [ancestor])
      else (case map_of numid2parent ancestor of
              None \<Rightarrow> Some (Inl KeyError)
            | Some parent \<Rightarrow>
                do {
                  r \<leftarrow> ancestors numid2parent parent;
                  Some (case r of Inl e \<Rightarrow> Inl e | Inr rest \<Rightarrow> Inr (ancestor # rest))
                }))"

declare ancestors.simps [code]

text \<open>
  \<^verbatim>\<open>_fill_ignored_sub_numids\<close>: the number of each ignored slot is appended to the list of
  every slot visited from it.
\<close>

fun fill_ignored_sub_numids ::
  "string list \<Rightarrow> (string \<times> nat) list \<Rightarrow> (nat \<times> nat) list \<Rightarrow> (nat \<Rightarrow> nat list)
     \<Rightarrow> (error + (nat \<Rightarrow> nat list)) option"
where
  "fill_ignored_sub_numids [] s2n numid2parent isn = Some (Inr isn)"
| "fill_ignored_sub_numids (strid # rest) s2n numid2parent isn =
     (case map_of s2n strid of
        None \<Rightarrow> Some (Inl KeyError)
      | Some numid \<Rightarrow>
          do {
            r \<leftarrow> ancestors numid2parent numid;
            (case r of
               Inl e \<Rightarrow> Some (Inl e)
             | Inr as \<Rightarrow>
                 fill_ignored_sub_numids rest s2n numid2parent
                   (foldl (\<lambda>f a. f(a := f a @ [numid])) isn as))
          })"

text \<open>
  \<^verbatim>\<open>numid2parent\<close>: the dict comprehension over \<^verbatim>\<open>strid2parent.items()\<close>.
\<close>

fun make_numid2parent :: "(string \<times> string) list \<Rightarrow> (string \<times> nat) list \<Rightarrow> error + (nat \<times> nat) list"
where
  "make_numid2parent [] s2n = Inr []"
| "make_numid2parent ((sid, par) # rest) s2n =
     (case (map_of s2n sid, map_of s2n par) of
        (Some a, Some b) \<Rightarrow>
          (case make_numid2parent rest s2n of
             Inl e \<Rightarrow> Inl e
           | Inr tab \<Rightarrow> Inr ((a, b) # tab))
      | _ \<Rightarrow> Inl KeyError)"

text \<open>
  \<^verbatim>\<open>_post_parsing\<close>. \<^verbatim>\<open>ignored_numids\<close> is left out: nothing reads it.
\<close>

definition post_parsing :: "rx \<Rightarrow> pstate \<Rightarrow> (error + (matcher \<times> warning list)) option" where
  "post_parsing pat st =
     (case re_check pat ([], []) of
        Inl e \<Rightarrow> Some (Inl e)
      | Inr g \<Rightarrow>
          (let compiled = rx_match pat;
               ws = (if compiled [WORD_SEPARATOR] 0 1 \<noteq> None
                     then warnings st @ [MatchesEmptyString] else warnings st);
               s2n = groupindex pat @ [(''id_*'', 0)]
           in (case make_numid2parent (strid2parent st) s2n of
                 Inl e \<Rightarrow> Some (Inl e)
               | Inr numid2parent \<Rightarrow>
                   do {
                     r \<leftarrow> fill_ignored_sub_numids (ignored2strid st) s2n numid2parent (\<lambda>_. []);
                     Some (case r of
                             Inl e \<Rightarrow> Inl e
                           | Inr isn \<Rightarrow>
                               Inr (\<lparr>compiled_pattern = compiled, strid2numid = s2n,
                                     ignored_sub_numids = isn\<rparr>, ws))
                   })))"

text \<open>
  \<^verbatim>\<open>PatternMatcher.__init__\<close>: the traversal from the root with parent \<^verbatim>\<open>"id_*"\<close>, then
  \<^verbatim>\<open>_post_parsing\<close> on the pieces, the first of which is the word separator. The result
  is the matcher with the warnings, or the exception.
\<close>

definition init_pstate :: pstate where
  "init_pstate = \<lparr>temp_id = 0, defined_w_ids = [], forepattern_ids = [], strid2parent = [],
                   ignored2strid = [], warnings = []\<rparr>"

definition PatternMatcher :: "pattern \<Rightarrow> (error + (matcher \<times> warning list)) option" where
  "PatternMatcher patternobj =
     (case do_parse patternobj ''id_*'' None init_pstate of
        Inl e \<Rightarrow> Some (Inl e)
      | Inr (body, st) \<Rightarrow> post_parsing (Cat (Chr WORD_SEPARATOR) body) st)"

text \<open>
  \<^verbatim>\<open>AbstractPattern.matches\<close>: build the \<^verbatim>\<open>PatternMatcher\<close> of the (frozen) pattern
  and run its \<^verbatim>\<open>matches\<close>.
\<close>

definition AbstractPattern_matches ::
  "nat \<Rightarrow> pattern \<Rightarrow> word list \<Rightarrow> string \<Rightarrow> bool \<Rightarrow> string list \<Rightarrow> bool \<Rightarrow> bool
     \<Rightarrow> (error + (match list \<times> status)) option"
where
  "AbstractPattern_matches fuel p words match_distance overlapping id_order anchor_begin
       anchor_end =
     (case PatternMatcher p of
        None \<Rightarrow> None
      | Some (Inl e) \<Rightarrow> Some (Inl e)
      | Some (Inr (m, ws)) \<Rightarrow>
          Some (Inr (matches fuel m words match_distance overlapping id_order
                       anchor_begin anchor_end)))"

section \<open>Notions used to state the properties\<close>

text \<open>The matcher of a pattern that compiles (a matcher that never matches otherwise).\<close>

definition the_matcher :: "pattern \<Rightarrow> matcher" where
  "the_matcher p =
     (case PatternMatcher p of
        Some (Inr (m, ws)) \<Rightarrow> m
      | _ \<Rightarrow> \<lparr>compiled_pattern = (\<lambda>s pos endpos. None), strid2numid = [],
              ignored_sub_numids = (\<lambda>n. [])\<rparr>)"

text \<open>What the traversal of a pattern returns: the expression and the final tables.\<close>

definition parsed :: "pattern \<Rightarrow> rx \<times> pstate" where
  "parsed p =
     (case do_parse p ''id_*'' None init_pstate of
        Inr x \<Rightarrow> x
      | Inl e \<Rightarrow> (Eps, init_pstate))"

text \<open>
  A yielded pair that \<^verbatim>\<open>_matches_at\<close> computes from the match object \<open>mr\<close>, found at the
  cursor whose token starts at \<open>current_start\<close>: its indices are the indices of the
  requested slots, one slot after the other, and its n-gram holds the words at these
  indices.
\<close>

definition from_match ::
  "matcher \<Rightarrow> word list \<Rightarrow> string \<Rightarrow> int \<Rightarrow> int list \<Rightarrow> nat list \<Rightarrow> mobj \<Rightarrow> match \<Rightarrow> bool"
where
  "from_match m words wordstring current_start positions numid_order mr y \<longleftrightarrow>
     (\<exists>current_end. compiled_pattern m wordstring (current_start - 1) current_end = Some mr)
     \<and> snd y = concat (map (wordnums_for m positions mr) numid_order)
     \<and> fst y = map (\<lambda>i. words ! i) (snd y)"


subsection \<open>What a match of an expression looks like\<close>

text \<open>
  A relation that holds whenever the engine matches: \<open>sem r s i e j e'\<close> says that \<open>r\<close>
  can match the string \<open>s\<close> from position \<open>i\<close> to position \<open>j\<close>, taking the groups \<open>e\<close>
  to \<open>e'\<close>. It leaves out the order in which the engine tries the alternatives.
\<close>

definition lit_at :: "string \<Rightarrow> string \<Rightarrow> nat \<Rightarrow> nat \<Rightarrow> bool" where
  "lit_at s t i j \<longleftrightarrow> take (length t) (drop i s) = t \<and> j = i + length t"

definition iter :: "(nat \<Rightarrow> genv \<Rightarrow> nat \<Rightarrow> genv \<Rightarrow> bool) \<Rightarrow> nat \<Rightarrow> genv \<Rightarrow> nat \<Rightarrow> genv \<Rightarrow> bool" where
  "iter step i e j e' \<longleftrightarrow> (\<lambda>(a, b) (c, d). step a b c d)\<^sup>*\<^sup>* (i, e) (j, e')"

primrec sem :: "rx \<Rightarrow> string \<Rightarrow> nat \<Rightarrow> genv \<Rightarrow> nat \<Rightarrow> genv \<Rightarrow> bool" where
  "sem (Chr c) s i e j e' \<longleftrightarrow> i < length s \<and> s ! i = c \<and> j = Suc i \<and> e' = e"
| "sem (In cs) s i e j e' \<longleftrightarrow> i < length s \<and> s ! i \<in> set cs \<and> j = Suc i \<and> e' = e"
| "sem (NotIn cs) s i e j e' \<longleftrightarrow> i < length s \<and> s ! i \<notin> set cs \<and> j = Suc i \<and> e' = e"
| "sem Eps s i e j e' \<longleftrightarrow> j = i \<and> e' = e"
| "sem (Cat r1 r2) s i e j e' \<longleftrightarrow> (\<exists>m em. sem r1 s i e m em \<and> sem r2 s m em j e')"
| "sem (Alt r1 r2) s i e j e' \<longleftrightarrow> sem r1 s i e j e' \<or> sem r2 s i e j e'"
| "sem (Quant r q) s i e j e' \<longleftrightarrow>
     (case parse_repeat q of
        Some (lo, hi, rest) \<Rightarrow> (\<exists>m. iter (sem r s) i e m e' \<and> lit_at s rest m j)
      | None \<Rightarrow> (\<exists>m. sem r s i e m e' \<and> lit_at s q m j))"
| "sem (Grp n r) s i e j e' \<longleftrightarrow> (\<exists>e''. sem r s i e j e'' \<and> e' = (n, (i, j)) # e'')"
| "sem (Bref n) s i e j e' \<longleftrightarrow>
     (\<exists>b f. map_of e n = Some (b, f) \<and> lit_at s (take (f - b) (drop b s)) i j \<and> e' = e)"
| "sem (Look positive r) s i e j e' \<longleftrightarrow>
     j = i \<and> (if positive then (\<exists>m. sem r s i e m e') else e' = e)"

definition sound :: "(nat \<Rightarrow> genv \<Rightarrow> nat \<Rightarrow> genv \<Rightarrow> bool) \<Rightarrow> (cont \<Rightarrow> nat \<Rightarrow> genv \<Rightarrow> mres) \<Rightarrow> bool" where
  "sound S f \<longleftrightarrow>
     (\<forall>k i e res. f k i e = Some res \<longrightarrow> (\<exists>j e'. S i e j e' \<and> k j e' = Some res))"

text \<open>
  A string without separator characters, and a stretch of a string: \<open>seg s i j xs\<close> says that
  \<open>xs\<close> is what \<open>s\<close> holds from position \<open>i\<close> up to position \<open>j\<close>.
\<close>

definition sep_free :: "string \<Rightarrow> bool" where
  "sep_free xs \<longleftrightarrow> ATTRIBUTE_SEPARATOR \<notin> set xs \<and> WORD_SEPARATOR \<notin> set xs"

definition seg :: "string \<Rightarrow> nat \<Rightarrow> nat \<Rightarrow> string \<Rightarrow> bool" where
  "seg s i j xs \<longleftrightarrow> drop i s = xs @ drop j s \<and> j = i + length xs"

subsection \<open>Example patterns and sentences\<close>

definition ex_word :: "string \<Rightarrow> string \<Rightarrow> word" where
  "ex_word l s = \<lparr>w_surface = l, w_lemma = l, w_pos = ''N'', w_syn = s\<rparr>"

text \<open>One word without any constraint.\<close>

definition ex_any :: pattern where
  "ex_any = SequencePattern None None False [WordPattern None [] []]"

text \<open>Lemma \<open>a\<close>, one ignored word, lemma \<open>a\<close>.\<close>

definition ex_ignore :: pattern where
  "ex_ignore =
     SequencePattern None None False
       [WordPattern None [(''lemma'', [LiteralProp ''a''])] [],
        SequencePattern None None True [WordPattern None [] []],
        WordPattern None [(''lemma'', [LiteralProp ''a''])] []]"

text \<open>A word with id \<open>n1\<close> whose syntactic relation is \<^verbatim>\<open>dobj:n1\<close>.\<close>

definition ex_self :: pattern where
  "ex_self =
     SequencePattern None None False
       [WordPattern (Some ''n1'') [(''syndep'', [LiteralProp ''dobj:n1''])] []]"

text \<open>A word with two syntactic-relation properties, after a word with id \<open>v\<close>.\<close>

definition ex_two_syndeps :: pattern where
  "ex_two_syndeps =
     SequencePattern None None False
       [WordPattern (Some ''v'') [] [],
        WordPattern None [(''syndep'', [LiteralProp ''dobj:v'', LiteralProp ''nsubj:v''])] []]"

text \<open>A sequence and a word inside it that declare the same id.\<close>

definition ex_dup :: pattern where
  "ex_dup = SequencePattern (Some ''a'') None False [WordPattern (Some ''a'') [] []]"

text \<open>The expression that the compiler builds for \<open>ex_self\<close>.\<close>

definition ex_self_rx :: rx where
  "ex_self_rx =
     Cat (Chr WORD_SEPARATOR)
       (Grp ''id_n1''
         (Cat (Cat (Grp ''wid_n1_wordnum'' ATTRIBUTE_WILDCARD)
              (Cat (Chr ATTRIBUTE_SEPARATOR)
              (Cat (Grp ''wid_n1_surface'' ATTRIBUTE_WILDCARD)
              (Cat (Chr ATTRIBUTE_SEPARATOR)
              (Cat (Grp ''wid_n1_lemma'' ATTRIBUTE_WILDCARD)
              (Cat (Chr ATTRIBUTE_SEPARATOR)
              (Cat (Grp ''wid_n1_pos'' ATTRIBUTE_WILDCARD)
              (Cat (Chr ATTRIBUTE_SEPARATOR)
              (Cat ATTRIBUTE_WILDCARD
              (Cat (lits '';dobj:'')
              (Cat (Bref ''wid_n1_wordnum'')
              (Cat (Chr CHR '';'') ATTRIBUTE_WILDCARD))))))))))))
            (Chr WORD_SEPARATOR)))"

section \<open>Properties of the regular-expression engine\<close>

lemma advancesD:
  "advances s f \<Longrightarrow> i \<le> length s \<Longrightarrow> f k i e = Some res \<Longrightarrow>
     \<exists>j e'. i \<le> j \<and> j \<le> length s \<and> k j e' = Some res"
  unfolding advances_def by blast

lemma advances_rep_loop:
  assumes b: "advances s body"
  shows "advances s (rep_loop fuel body lo hi)"
  unfolding advances_def
proof (induction fuel arbitrary: lo hi)
  case 0
  show ?case by (auto split: if_splits)
next
  case (Suc fuel)
  show ?case
  proof (intro allI impI)
    fix k i e res
    assume i: "i \<le> length s" and r: "rep_loop (Suc fuel) body lo hi k i e = Some res"
    let ?k' = "\<lambda>j e'. if j = i \<and> lo = 0 then None
                 else rep_loop fuel body (lo - 1) (map_option (\<lambda>h. h - 1) hi) k j e'"
    show "\<exists>j e'. i \<le> j \<and> j \<le> length s \<and> k j e' = Some res"
    proof (cases "hi = Some 0")
      case True
      with r i show ?thesis by auto
    next
      case False
      show ?thesis
      proof (cases "body ?k' i e")
        case None
        with r False i show ?thesis by (auto split: if_splits)
      next
        case (Some res')
        with r False have "res' = res" by simp
        with Some advancesD[OF b i, of ?k' e res] obtain j e' where
          j: "i \<le> j" "j \<le> length s" and k': "?k' j e' = Some res" by blast
        from k' have "rep_loop fuel body (lo - 1) (map_option (\<lambda>h. h - 1) hi) k j e' = Some res"
          by (auto split: if_splits)
        with Suc.IH j obtain j' e'' where "j \<le> j'" "j' \<le> length s" "k j' e'' = Some res"
          by blast
        with j show ?thesis by (meson le_trans)
      qed
    qed
  qed
qed

lemma take_eq_length: "take (length q) xs = q \<Longrightarrow> length q \<le> length xs"
  by (metis length_take min.cobounded1)

lemma step_adv:
  "i < length s \<Longrightarrow> k (Suc i) e = Some res \<Longrightarrow>
     \<exists>j\<ge>i. j \<le> length s \<and> (\<exists>e'. k j e' = Some res)"
  by (intro exI[of _ "Suc i"] conjI exI[of _ e]) auto

lemma advances_run: "advances s (run r s)"
proof (induction r)
  case (Chr c)
  show ?case unfolding advances_def by (auto split: if_splits intro: step_adv)
next
  case (In cs)
  show ?case unfolding advances_def by (auto split: if_splits intro: step_adv)
next
  case (NotIn cs)
  show ?case unfolding advances_def by (auto split: if_splits intro: step_adv)
next
  case Eps
  show ?case unfolding advances_def by auto
next
  case (Cat r1 r2)
  show ?case unfolding advances_def
  proof (intro allI impI)
    fix k i e res
    assume i: "i \<le> length s" and r: "run (Cat r1 r2) s k i e = Some res"
    from r have "run r1 s (\<lambda>j e'. run r2 s k j e') i e = Some res" by simp
    from advancesD[OF Cat.IH(1) i this] obtain j e' where
      j: "i \<le> j" "j \<le> length s" "run r2 s k j e' = Some res" by blast
    from advancesD[OF Cat.IH(2) j(2) j(3)] obtain j' e'' where
      "j \<le> j'" "j' \<le> length s" "k j' e'' = Some res" by blast
    with j show "\<exists>j e'. i \<le> j \<and> j \<le> length s \<and> k j e' = Some res" by (meson le_trans)
  qed
next
  case (Alt r1 r2)
  show ?case unfolding advances_def
  proof (intro allI impI)
    fix k i e res
    assume i: "i \<le> length s" and r: "run (Alt r1 r2) s k i e = Some res"
    then have "run r1 s k i e = Some res \<or> run r2 s k i e = Some res"
      by (auto split: option.splits)
    then show "\<exists>j e'. i \<le> j \<and> j \<le> length s \<and> k j e' = Some res"
      using advancesD[OF Alt.IH(1) i] advancesD[OF Alt.IH(2) i] by blast
  qed
next
  case (Quant r q)
  show ?case
  proof (cases "parse_repeat q")
    case None
    show ?thesis unfolding advances_def
    proof (intro allI impI)
      fix k i e res
      assume i: "i \<le> length s" and r: "run (Quant r q) s k i e = Some res"
      let ?k' = "\<lambda>j e'. if take (length q) (drop j s) = q then k (j + length q) e' else None"
      from r None have "run r s ?k' i e = Some res" by simp
      from advancesD[OF Quant.IH i this] obtain j e' where
        j: "i \<le> j" "j \<le> length s" "?k' j e' = Some res" by blast
      then have t: "take (length q) (drop j s) = q" and k: "k (j + length q) e' = Some res"
        by (auto split: if_splits)
      from t have "length q \<le> length s - j"
        using take_eq_length[of q "drop j s"] by simp
      with j k show "\<exists>j e'. i \<le> j \<and> j \<le> length s \<and> k j e' = Some res"
        by (intro exI[of _ "j + length q"] exI[of _ e']) auto
    qed
  next
    case (Some a)
    obtain lo hi rest where a: "a = (lo, hi, rest)" by (cases a)
    show ?thesis unfolding advances_def
    proof (intro allI impI)
      fix k i e res
      assume i: "i \<le> length s" and r: "run (Quant r q) s k i e = Some res"
      let ?k' = "\<lambda>j e'. if take (length rest) (drop j s) = rest then k (j + length rest) e'
                   else None"
      from r Some a have "rep_loop (length s - i + lo + 1) (run r s) lo hi ?k' i e = Some res"
        by simp
      from advancesD[OF advances_rep_loop[OF Quant.IH] i this] obtain j e' where
        j: "i \<le> j" "j \<le> length s" "?k' j e' = Some res" by blast
      then have t: "take (length rest) (drop j s) = rest"
        and k: "k (j + length rest) e' = Some res"
        by (auto split: if_splits)
      from t have "length rest \<le> length s - j"
        using take_eq_length[of rest "drop j s"] by simp
      with j k show "\<exists>j e'. i \<le> j \<and> j \<le> length s \<and> k j e' = Some res"
        by (intro exI[of _ "j + length rest"] exI[of _ e']) auto
    qed
  qed
next
  case (Grp n r)
  show ?case unfolding advances_def
  proof (intro allI impI)
    fix k i e res
    assume i: "i \<le> length s" and r: "run (Grp n r) s k i e = Some res"
    then have "run r s (\<lambda>j e'. k j ((n, (i, j)) # e')) i e = Some res" by simp
    from advancesD[OF Grp.IH i this]
    show "\<exists>j e'. i \<le> j \<and> j \<le> length s \<and> k j e' = Some res" by blast
  qed
next
  case (Bref n)
  show ?case unfolding advances_def
  proof (intro allI impI)
    fix k i e res
    assume i: "i \<le> length s" and r: "run (Bref n) s k i e = Some res"
    then obtain b f where bf: "map_of e n = Some (b, f)" by (auto split: option.splits)
    let ?t = "take (f - b) (drop b s)"
    from r bf have t: "take (length ?t) (drop i s) = ?t" and k: "k (i + length ?t) e = Some res"
      by (auto simp: Let_def split: if_splits)
    from t have "length ?t \<le> length s - i"
      using take_eq_length[of ?t "drop i s"] by simp
    with i k show "\<exists>j e'. i \<le> j \<and> j \<le> length s \<and> k j e' = Some res"
      by (intro exI[of _ "i + length ?t"] exI[of _ e]) auto
  qed
next
  case (Look positive r)
  show ?case unfolding advances_def
    by (auto split: option.splits if_splits)
qed

lemma rx_match_bounds:
  assumes "rx_match (Cat (Chr c) r) s pos endpos = Some mr"
  shows "pos < snd (mr 0) \<and> snd (mr 0) \<le> endpos"
proof -
  define p where "p = clamp_pos s pos"
  define e where "e = clamp_pos s endpos"
  from assms obtain j env where
    run: "run (Cat (Chr c) r) (take e s) (\<lambda>j env. Some (j, env)) p [] = Some (j, env)"
    and mr: "mr = mobj_of (group_names (Cat (Chr c) r)) p j env"
    unfolding rx_match_def Let_def p_def[symmetric] e_def[symmetric]
    by (auto split: if_splits option.splits)
  from run have p: "p < length (take e s)" and
    run': "run r (take e s) (\<lambda>j env. Some (j, env)) (Suc p) [] = Some (j, env)"
    by (auto split: if_splits)
  from p have "Suc p \<le> length (take e s)" by simp
  from advancesD[OF advances_run this run'] have j: "Suc p \<le> j" "j \<le> length (take e s)"
    by auto
  have "pos \<le> int p" using p unfolding p_def e_def clamp_pos_def by auto
  moreover have "int j \<le> endpos" using j p unfolding e_def clamp_pos_def by auto
  moreover have "snd (mr 0) = int j" by (simp add: mr mobj_of_def)
  ultimately show ?thesis using j by auto
qed


section \<open>Properties of the match executor\<close>

lemma length_encode_words: "length (fst (encode_words ws n l)) = length ws"
  by (induction ws arbitrary: n l) (simp_all add: Let_def case_prod_unfold)

lemma length_encode_positions: "length (encode_positions ws) = length ws"
  by (simp add: encode_positions_def length_encode_words)

lemma matches_at_terminates_aux:
  assumes ok: "re_ok (compiled_pattern m)"
  shows "nat (current_end - (current_start - 1)) = n \<Longrightarrow>
         \<exists>r. matches_at m words wordstring current_start current_end positions numid_order anchor_end = Some r"
proof (induction n arbitrary: current_end rule: less_induct)
  case (less n)
  show ?case
  proof (cases "compiled_pattern m wordstring (current_start - 1) current_end")
    case None
    then show ?thesis by (subst matches_at.simps) simp
  next
    case (Some mr)
    with ok have b: "current_start - 1 < snd (mr 0)" "snd (mr 0) \<le> current_end"
      unfolding re_ok_def by blast+
    have "nat (snd (mr 0) - 1 - (current_start - 1)) < n" using b less.prems by linarith
    from less.IH[OF this refl] obtain r where
      "matches_at m words wordstring current_start (snd (mr 0) - 1) positions numid_order anchor_end = Some r"
      by blast
    then show ?thesis using Some by (subst matches_at.simps) (auto simp: Let_def)
  qed
qed

lemma matches_at_terminates:
  "re_ok (compiled_pattern m) \<Longrightarrow>
     \<exists>r. matches_at m words wordstring current_start current_end positions numid_order anchor_end = Some r"
  using matches_at_terminates_aux by blast

lemma matches_at_from_match:
  assumes "matches_at m words wordstring current_start current_end positions numid_order
             anchor_end = Some r"
  shows "list_all (\<lambda>y. \<exists>mr. from_match m words wordstring current_start positions
                             numid_order mr y) r"
  apply (rule matches_at.raw_induct[where P = "\<lambda>m words wordstring current_start current_end
            positions numid_order anchor_end r.
            list_all (\<lambda>y. \<exists>mr. from_match m words wordstring current_start positions
                              numid_order mr y) r", OF _ assms])
  apply (auto simp: Let_def from_match_def bind_eq_Some_conv split: option.splits if_splits)
   apply blast+
  done

lemma pos2wordnum_Some:
  assumes "p \<in> set positions"
  shows "\<exists>j. pos2wordnum positions p = Some j \<and> j < length positions \<and> positions ! j = p"
proof -
  let ?zs = "rev (zip positions [0..<length positions])"
  have "p \<in> fst ` set ?zs" using assms by (simp add: image_iff) (metis fst_conv in_set_conv_nth in_set_zip length_upt minus_nat.diff_0 nth_upt add_0 snd_conv)
  then obtain j where j: "map_of ?zs p = Some j"
    by (metis map_of_eq_None_iff not_Some_eq)
  then have "(p, j) \<in> set (zip positions [0..<length positions])"
    using map_of_SomeD by fastforce
  then have "j < length positions \<and> positions ! j = p"
    by (auto simp: in_set_zip)
  with j show ?thesis by (auto simp: pos2wordnum_def)
qed


lemma scan_positions_props:
  assumes "set rest \<subseteq> set positions"
  shows "list_all (\<lambda>idx. idx < length positions \<and> positions ! idx \<in> set rest
            \<and> positions ! idx < p_end
            \<and> \<not> list_ex (\<lambda>(b, e). b \<le> positions ! idx \<and> positions ! idx < e) ignored_ranges)
           (scan_positions positions rest ignored_ranges p_end)"
  using assms
proof (induction rest)
  case Nil
  show ?case by simp
next
  case (Cons p rest)
  from Cons.prems have "p \<in> set positions" by simp
  from pos2wordnum_Some[OF this] obtain j where
    j: "pos2wordnum positions p = Some j" "j < length positions" "positions ! j = p" by blast
  from Cons have IH: "list_all (\<lambda>idx. idx < length positions \<and> positions ! idx \<in> set rest
            \<and> positions ! idx < p_end
            \<and> \<not> list_ex (\<lambda>(b, e). b \<le> positions ! idx \<and> positions ! idx < e) ignored_ranges)
           (scan_positions positions rest ignored_ranges p_end)" by simp
  have IH': "list_all (\<lambda>idx. idx < length positions \<and> positions ! idx \<in> set (p # rest)
            \<and> positions ! idx < p_end
            \<and> \<not> list_ex (\<lambda>(b, e). b \<le> positions ! idx \<and> positions ! idx < e) ignored_ranges)
           (scan_positions positions rest ignored_ranges p_end)"
    by (rule list.pred_mono_strong[OF IH]) auto
  show ?case using j IH' by (auto simp del: list_ex_iff)
qed

lemma wordnums_for_props:
  "list_all (\<lambda>idx. idx < length positions
       \<and> list_all (\<lambda>d. \<not> (fst (mr d) \<le> positions ! idx \<and> positions ! idx < snd (mr d)))
           (ignored_sub_numids m numid))
     (wordnums_for m positions mr numid)"
proof -
  obtain p_beg p_end where sp: "mr numid = (p_beg, p_end)" by (cases "mr numid")
  let ?rest = "drop (bisect_left positions p_beg) positions"
  have sub: "set ?rest \<subseteq> set positions" by (rule set_drop_subset)
  have "list_all (\<lambda>idx. idx < length positions \<and> positions ! idx \<in> set ?rest
            \<and> positions ! idx < p_end
            \<and> \<not> list_ex (\<lambda>(b, e). b \<le> positions ! idx \<and> positions ! idx < e)
                  (map mr (ignored_sub_numids m numid)))
           (scan_positions positions ?rest (map mr (ignored_sub_numids m numid)) p_end)"
    by (rule scan_positions_props[OF sub])
  then show ?thesis
    unfolding wordnums_for_def Let_def sp
    by (auto simp: list_all_iff list_ex_iff case_prod_unfold)
qed

lemma scan_positions_eq:
  "scan_positions positions rest ignored_ranges p_end =
     map (\<lambda>p. the (pos2wordnum positions p))
       (filter (\<lambda>p. \<not> list_ex (\<lambda>(b, e). b \<le> p \<and> p < e) ignored_ranges)
          (takeWhile (\<lambda>p. p < p_end) rest))"
  by (induction rest) (auto simp del: list_ex_iff)

lemma scan_positions_distinct:
  assumes "distinct rest" "set rest \<subseteq> set positions"
  shows "distinct (scan_positions positions rest ignored_ranges p_end)"
proof -
  have inj: "inj_on (\<lambda>p. the (pos2wordnum positions p)) (set positions)"
  proof (rule inj_onI)
    fix x y assume x: "x \<in> set positions" and y: "y \<in> set positions"
      and eq: "the (pos2wordnum positions x) = the (pos2wordnum positions y)"
    from pos2wordnum_Some[OF x] pos2wordnum_Some[OF y] eq show "x = y" by auto
  qed
  let ?xs = "filter (\<lambda>p. \<not> list_ex (\<lambda>(b, e). b \<le> p \<and> p < e) ignored_ranges)
               (takeWhile (\<lambda>p. p < p_end) rest)"
  have d: "distinct ?xs" using assms(1) by (simp add: distinct_takeWhile)
  have "set ?xs \<subseteq> set positions" using assms(2) set_takeWhileD by fastforce
  then have "inj_on (\<lambda>p. the (pos2wordnum positions p)) (set ?xs)"
    using inj by (rule inj_on_subset[rotated])
  with d show ?thesis unfolding scan_positions_eq by (simp add: distinct_map)
qed

lemma wordnums_for_distinct:
  "distinct positions \<Longrightarrow> distinct (wordnums_for m positions mr numid)"
  unfolding wordnums_for_def Let_def
  by (auto simp: case_prod_unfold intro!: scan_positions_distinct set_drop_subset)

lemma encode_words_lower:
  "list_all (\<lambda>p. l \<le> p) (fst (encode_words ws n l))"
proof (induction ws arbitrary: n l)
  case Nil
  show ?case by simp
next
  case (Cons w ws)
  let ?l' = "l + int (length (WORD_FORMAT (str_nat n) (w_surface w) (w_lemma w) (w_pos w)
              ('';'' @ w_syn w @ '';''))) + 1"
  have "list_all (\<lambda>p. ?l' \<le> p) (fst (encode_words ws (n + 1) ?l'))" by (rule Cons.IH)
  then have "list_all (\<lambda>p. l \<le> p) (fst (encode_words ws (n + 1) ?l'))"
    by (rule list.pred_mono_strong) auto
  then show ?case by (simp add: Let_def case_prod_unfold)
qed

lemma encode_words_distinct: "distinct (fst (encode_words ws n l))"
proof (induction ws arbitrary: n l)
  case Nil
  show ?case by simp
next
  case (Cons w ws)
  let ?l' = "l + int (length (WORD_FORMAT (str_nat n) (w_surface w) (w_lemma w) (w_pos w)
              ('';'' @ w_syn w @ '';''))) + 1"
  have "list_all (\<lambda>p. ?l' \<le> p) (fst (encode_words ws (n + 1) ?l'))"
    by (rule encode_words_lower)
  then have "l \<notin> set (fst (encode_words ws (n + 1) ?l'))"
    by (auto simp: list_all_iff)
  with Cons.IH[of "n + 1" ?l'] show ?case by (simp add: Let_def case_prod_unfold)
qed

lemma encode_positions_distinct: "distinct (encode_positions ws)"
  by (simp add: encode_positions_def encode_words_distinct)

lemma select_matches_subset:
  "select_matches match_distance overlapping matches_here = Inr (ys, increment) \<Longrightarrow>
     set ys \<subseteq> set matches_here"
  by (auto simp: select_matches_def split: if_splits)

lemma matches_loop_from_match:
  "list_all (\<lambda>y. \<exists>mr i. i < length positions
                \<and> from_match m words wordstring (positions ! i) positions numid_order mr y)
     (fst (matches_loop fuel m words wordstring positions numid_order match_distance
             overlapping anchor_begin anchor_end i))"
proof (induction fuel arbitrary: i)
  case 0
  show ?case by (simp add: matches_loop.simps)
next
  case (Suc fuel)
  let ?Q = "\<lambda>y. \<exists>mr i. i < length positions
                \<and> from_match m words wordstring (positions ! i) positions numid_order mr y"
  show ?case
  proof (cases "i < length positions")
    case False
    then show ?thesis by (simp add: matches_loop.simps)
  next
    case True
    show ?thesis
    proof (cases "matches_at m words wordstring (positions ! i) (int (length wordstring))
                    positions numid_order anchor_end")
      case None
      with True show ?thesis by (simp add: matches_loop.simps)
    next
      case (Some matches_here)
      from matches_at_from_match[OF Some] True
      have mh: "list_all ?Q matches_here" unfolding list_all_iff by blast
      show ?thesis
      proof (cases "select_matches match_distance overlapping matches_here")
        case (Inl e)
        with True Some show ?thesis by (simp add: matches_loop.simps)
      next
        case (Inr a)
        obtain ys increment where a: "a = (ys, increment)" by (cases a)
        from select_matches_subset[OF Inr[unfolded a]] mh
        have ys: "list_all ?Q ys" by (auto simp: list_all_iff)
        from Suc.IH[of "i + increment"] ys True Some Inr a show ?thesis
          by (subst matches_loop.simps) (auto simp: case_prod_unfold Let_def)
      qed
    qed
  qed
qed

lemma length_strids2numids: "length (strids2numids m ids) \<le> length ids"
  unfolding strids2numids_def map_filter_def by (simp add: le_trans[OF length_filter_le])

lemma compiled_the_matcher:
  assumes "map_option (map_sum id snd) (PatternMatcher p) = Some (Inr ws)"
  shows "PatternMatcher p = Some (Inr (the_matcher p, ws))"
proof -
  from assms obtain m where "PatternMatcher p = Some (Inr (m, ws))"
    by (cases "PatternMatcher p") (auto simp: map_sum_def split: sum.splits)
  then show ?thesis by (simp add: the_matcher_def)
qed

lemma re_ok_rx_match: "re_ok (rx_match (Cat (Chr c) r))"
  unfolding re_ok_def using rx_match_bounds by blast

lemma post_parsing_compiled:
  "post_parsing pat st = Some (Inr (m, ws)) \<Longrightarrow> compiled_pattern m = rx_match pat"
  apply (auto simp: post_parsing_def Let_def bind_eq_Some_conv split: sum.splits)
  subgoal for a b x2a y by (cases y) auto
  done

lemma PatternMatcher_re_ok:
  "PatternMatcher p = Some (Inr (m, ws)) \<Longrightarrow> re_ok (compiled_pattern m)"
  by (auto simp: PatternMatcher_def re_ok_rx_match dest!: post_parsing_compiled split: sum.splits)

lemma matches_yields:
  "list_all (\<lambda>y. \<exists>mr i. i < length words
                \<and> from_match m words (encode_wordstring words) (encode_positions words ! i)
                     (encode_positions words) (strids2numids m id_order) mr y)
     (fst (matches fuel m words match_distance overlapping id_order anchor_begin anchor_end))"
  unfolding matches_def Let_def
  using matches_loop_from_match[of "encode_positions words" m words "encode_wordstring words"]
  by (simp add: length_encode_positions)

text \<open>
  C4 (amended). Every token index of every yielded MatchResult lies in \<open>[0, len(S))\<close>. The
  indices of a MatchResult are the indices of the requested ids, one id after the other,
  and the indices of one id are pairwise distinct; so the indices of a MatchResult are
  pairwise distinct when at most one id is requested, as with the default \<^verbatim>\<open>("*",)\<close>.
\<close>

theorem matches_indices:
  assumes "(ngram, wordnums) \<in>
             set (fst (matches fuel m words match_distance overlapping id_order
                         anchor_begin anchor_end))"
  shows "(\<forall>i\<in>set wordnums. i < length words)
       \<and> (\<exists>mr. wordnums = concat (map (wordnums_for m (encode_positions words) mr)
                               (strids2numids m id_order))
              \<and> (\<forall>numid. distinct (wordnums_for m (encode_positions words) mr numid)))
       \<and> (length id_order \<le> 1 \<longrightarrow> distinct wordnums)"
proof -
  let ?pos = "encode_positions words" and ?ids = "strids2numids m id_order"
  from matches_yields[of words m id_order fuel match_distance overlapping anchor_begin anchor_end]
    assms
  obtain mr where wn: "wordnums = concat (map (wordnums_for m ?pos mr) ?ids)"
    by (auto simp: list_all_iff from_match_def)
  have d: "distinct (wordnums_for m ?pos mr numid)" for numid
    by (rule wordnums_for_distinct[OF encode_positions_distinct])
  have r: "i < length words" if "i \<in> set wordnums" for i
  proof -
    from that wn obtain numid where "i \<in> set (wordnums_for m ?pos mr numid)" by auto
    with wordnums_for_props[of ?pos mr m numid] show ?thesis
      by (auto simp: list_all_iff length_encode_positions)
  qed
  have one: "distinct wordnums" if "length id_order \<le> 1"
  proof -
    from that length_strids2numids[of m id_order] have "length ?ids \<le> 1" by simp
    then have "?ids = [] \<or> (\<exists>n. ?ids = [n])"
      by (cases ?ids) (auto simp: length_Suc_conv)
    with wn d show ?thesis by auto
  qed
  from r wn d one show ?thesis by blast
qed

lemma ex_any_compiles: "map_option (map_sum id snd) (PatternMatcher ex_any) = Some (Inr [])"
  by code_simp

text \<open>An instance of C4 (amended): one unconstrained word over a sentence of two tokens.\<close>

theorem matches_indices_witness:
  "([ex_word ''a'' []], [0]) \<in>
       set (fst (matches 2 (the_matcher ex_any) [ex_word ''a'' [], ex_word ''b'' []]
                   ''All'' True [''*''] False False))
   \<and> (\<exists>mr. [0::nat] = concat (map (wordnums_for (the_matcher ex_any)
                                  (encode_positions [ex_word ''a'' [], ex_word ''b'' []]) mr)
                               (strids2numids (the_matcher ex_any) [''*'']))) 
   \<and> length [''*''] \<le> (1::nat) \<and> distinct [0::nat]"
proof -
  have h: "([ex_word ''a'' []], [0]) \<in>
       set (fst (matches 2 (the_matcher ex_any) [ex_word ''a'' [], ex_word ''b'' []]
                   ''All'' True [''*''] False False))"
    by code_simp
  from matches_indices[OF h] show ?thesis using h by auto
qed

text \<open>
  C4 as stated fails when an id is requested twice (or two requested ids overlap, as in
  the example in the comment of \<^verbatim>\<open>_matches_at\<close>): the token index is returned once for
  each.
\<close>

theorem duplicate_indices_counterexample:
  "AbstractPattern_matches 1 ex_any [ex_word ''a'' []] ''All'' True [''*'', ''*''] False False
     = Some (Inr ([([ex_word ''a'' [], ex_word ''a'' []], [0, 0])], Exhausted))"
  by code_simp

lemma select_matches_overlapping:
  "match_distance \<in> {''All'', ''Longest'', ''Shortest''} \<Longrightarrow>
     \<exists>ys. select_matches match_distance True matches_here = Inr (ys, 1)"
  by (auto simp: select_matches_def)

lemma matches_loop_overlapping_exhausts:
  assumes ok: "re_ok (compiled_pattern m)"
    and md: "match_distance \<in> {''All'', ''Longest'', ''Shortest''}"
  shows "length positions - i \<le> fuel \<Longrightarrow>
         snd (matches_loop fuel m words wordstring positions numid_order match_distance True
                anchor_begin anchor_end i) = Exhausted"
proof (induction fuel arbitrary: i)
  case 0
  then show ?case by (simp add: matches_loop.simps)
next
  case (Suc fuel)
  show ?case
  proof (cases "i < length positions")
    case False
    then show ?thesis by (simp add: matches_loop.simps)
  next
    case True
    from matches_at_terminates[OF ok] obtain matches_here where
      mh: "matches_at m words wordstring (positions ! i) (int (length wordstring))
             positions numid_order anchor_end = Some matches_here" by blast
    from select_matches_overlapping[OF md] obtain ys where
      ys: "select_matches match_distance True matches_here = Inr (ys, 1)" by blast
    from Suc.prems have "length positions - (i + 1) \<le> fuel" by simp
    from Suc.IH[OF this] True mh ys show ?thesis
      by (subst matches_loop.simps) (auto simp: case_prod_unfold Let_def)
  qed
qed

lemma matches_loop_longest_subset_all:
  "set (fst (matches_loop fuel m words wordstring positions numid_order ''Longest'' True
               anchor_begin anchor_end i))
   \<subseteq> set (fst (matches_loop fuel m words wordstring positions numid_order ''All'' True
                 anchor_begin anchor_end i))"
proof (induction fuel arbitrary: i)
  case 0
  show ?case by (simp add: matches_loop.simps)
next
  case (Suc fuel)
  show ?case
  proof (cases "i < length positions")
    case False
    then show ?thesis by (simp add: matches_loop.simps)
  next
    case True
    show ?thesis
    proof (cases "matches_at m words wordstring (positions ! i) (int (length wordstring))
                    positions numid_order anchor_end")
      case None
      with True show ?thesis by (simp add: matches_loop.simps)
    next
      case (Some matches_here)
      have l: "select_matches ''Longest'' True matches_here =
                 Inr (if matches_here \<noteq> [] then [hd matches_here] else [], 1)"
        by (simp add: select_matches_def)
      have a: "select_matches ''All'' True matches_here = Inr (matches_here, 1)"
        by (simp add: select_matches_def)
      have hd: "set (if matches_here \<noteq> [] then [hd matches_here] else []) \<subseteq> set matches_here"
        by auto
      from Suc.IH[of "i + 1"] hd show ?thesis
        by (subst (1 2) matches_loop.simps)
           (auto simp: True Some l a case_prod_unfold Let_def simp del: One_nat_def)
    qed
  qed
qed

text \<open>
  C5. For every compiled pattern and every sentence \<open>S\<close>, with overlapping matches both
  \<^verbatim>\<open>matches(S, "All")\<close> and \<^verbatim>\<open>matches(S, "Longest")\<close> are exhausted after \<open>len(S)\<close>
  iterations of the scan loop, and whatever \<^verbatim>\<open>"Longest"\<close> has yielded after some number
  of iterations, \<^verbatim>\<open>"All"\<close> has yielded too after as many: both visit the same cursor
  positions, and \<^verbatim>\<open>"Longest"\<close> yields the first of the matches that \<^verbatim>\<open>"All"\<close> yields
  there.
\<close>

theorem all_superset_of_longest:
  assumes "re_ok (compiled_pattern m)"
  shows "snd (matches (length words) m words ''All'' True id_order anchor_begin anchor_end)
           = Exhausted
       \<and> snd (matches (length words) m words ''Longest'' True id_order anchor_begin anchor_end)
           = Exhausted
       \<and> set (fst (matches fuel m words ''Longest'' True id_order anchor_begin anchor_end))
           \<subseteq> set (fst (matches fuel m words ''All'' True id_order anchor_begin anchor_end))"
  unfolding matches_def Let_def
  using matches_loop_overlapping_exhausts[OF assms, of _ "encode_positions words" 0 "length words"]
    matches_loop_longest_subset_all
  by (simp add: length_encode_positions)

lemma ex_ignore_compiles:
  "map_option (map_sum id snd) (PatternMatcher ex_ignore) = Some (Inr [])"
  by code_simp

text \<open>An instance of C5: the pattern with an ignored word over a sentence of three tokens.\<close>

theorem all_superset_of_longest_witness:
  "re_ok (compiled_pattern (the_matcher ex_ignore))
   \<and> matches 3 (the_matcher ex_ignore) [ex_word ''a'' [], ex_word ''b'' [], ex_word ''a'' []]
        ''All'' True [''*''] False False
      = ([([ex_word ''a'' [], ex_word ''a'' []], [0, 2])], Exhausted)
   \<and> set (fst (matches 3 (the_matcher ex_ignore)
                  [ex_word ''a'' [], ex_word ''b'' [], ex_word ''a'' []]
                  ''Longest'' True [''*''] False False))
      \<subseteq> {([ex_word ''a'' [], ex_word ''a'' []], [0, 2])}"
proof -
  have ok: "re_ok (compiled_pattern (the_matcher ex_ignore))"
    by (rule PatternMatcher_re_ok[OF compiled_the_matcher[OF ex_ignore_compiles]])
  have ev: "matches 3 (the_matcher ex_ignore) [ex_word ''a'' [], ex_word ''b'' [], ex_word ''a'' []]
        ''All'' True [''*''] False False
      = ([([ex_word ''a'' [], ex_word ''a'' []], [0, 2])], Exhausted)"
    by code_simp
  from all_superset_of_longest[OF ok, of "[ex_word ''a'' [], ex_word ''b'' [], ex_word ''a'' []]"
      "[''*'']" False False 3] ok ev
  show ?thesis by simp
qed

text \<open>
  C6 (amended). Over a sentence that is not empty, when the scan for the matches that
  start at the first token returns (\<^verbatim>\<open>list(self._matches_at(...))\<close>, the first statement
  of the scan loop), the first iteration of the generator raises the configuration error
  before anything is yielded, when the selection policy is none of \<^verbatim>\<open>"All"\<close>,
  \<^verbatim>\<open>"Longest"\<close>, \<^verbatim>\<open>"Shortest"\<close>, and when it is \<^verbatim>\<open>"All"\<close> without overlapping.
\<close>

theorem bad_policy_raises:
  assumes "words \<noteq> []"
    and "matches_at m words (encode_wordstring words) (encode_positions words ! 0)
           (int (length (encode_wordstring words))) (encode_positions words)
           (strids2numids m id_order) anchor_end = Some matches_here"
  shows "(match_distance \<notin> {''All'', ''Longest'', ''Shortest''} \<longrightarrow>
            matches (Suc fuel) m words match_distance overlapping id_order anchor_begin anchor_end
              = ([], Raised (BadMatchDistance match_distance)))
       \<and> matches (Suc fuel) m words ''All'' False id_order anchor_begin anchor_end
              = ([], Raised AllRequiresOverlapping)"
proof -
  let ?pos = "encode_positions words"
  from assms(1) have pos: "0 < length ?pos" by (simp add: length_encode_positions)
  have s1: "match_distance \<notin> {''All'', ''Longest'', ''Shortest''} \<Longrightarrow>
              select_matches match_distance overlapping mh = Inl (BadMatchDistance match_distance)"
    for mh by (simp add: select_matches_def)
  have s2: "select_matches ''All'' False mh = Inl AllRequiresOverlapping" for mh
    by (simp add: select_matches_def)
  from assms(2) pos s1 s2 show ?thesis
    unfolding matches_def Let_def
    by (subst (1 2) matches_loop.simps) auto
qed

text \<open>An instance of C6 (amended): a sentence of one token.\<close>

theorem bad_policy_raises_witness:
  "[ex_word ''a'' []] \<noteq> []
   \<and> matches_at (the_matcher ex_any) [ex_word ''a'' []] (encode_wordstring [ex_word ''a'' []])
       (encode_positions [ex_word ''a'' []] ! 0)
       (int (length (encode_wordstring [ex_word ''a'' []]))) (encode_positions [ex_word ''a'' []])
       (strids2numids (the_matcher ex_any) [''*'']) False
     = Some [([ex_word ''a'' []], [0])]
   \<and> ''Nearest'' \<notin> {''All'', ''Longest'', ''Shortest''}
   \<and> matches 1 (the_matcher ex_any) [ex_word ''a'' []] ''Nearest'' True [''*''] False False
        = ([], Raised (BadMatchDistance ''Nearest''))
   \<and> matches 1 (the_matcher ex_any) [ex_word ''a'' []] ''All'' False [''*''] False False
        = ([], Raised AllRequiresOverlapping)"
proof -
  have ne: "[ex_word ''a'' []] \<noteq> []" by simp
  have sc: "matches_at (the_matcher ex_any) [ex_word ''a'' []] (encode_wordstring [ex_word ''a'' []])
       (encode_positions [ex_word ''a'' []] ! 0)
       (int (length (encode_wordstring [ex_word ''a'' []]))) (encode_positions [ex_word ''a'' []])
       (strids2numids (the_matcher ex_any) [''*'']) False
     = Some [([ex_word ''a'' []], [0])]"
    by code_simp
  from bad_policy_raises[OF ne sc, of "''Nearest''" 0 True False] sc
  show ?thesis by simp
qed

text \<open>
  C6 as stated fails over the empty sentence: the checks are statements of the scan loop,
  which is not entered, so neither configuration raises anything.
\<close>

theorem bad_policy_empty_sentence_counterexample:
  "AbstractPattern_matches 1 ex_any [] ''Nearest'' True [''*''] False False
     = Some (Inr ([], Exhausted))
   \<and> AbstractPattern_matches 1 ex_any [] ''All'' False [''*''] False False
     = Some (Inr ([], Exhausted))"
  by code_simp


lemma ex_any_unknown_id:
  "strids2numids (the_matcher ex_any) [''x''] = []"
  by code_simp

lemma ex_any_matches_at:
  "matches_at (the_matcher ex_any) [ex_word ''a'' []] (encode_wordstring [ex_word ''a'' []])
     (encode_positions [ex_word ''a'' []] ! 0)
     (int (length (encode_wordstring [ex_word ''a'' []])))
     (encode_positions [ex_word ''a'' []]) [] False
   = Some [([], [])]"
  by code_simp

lemma ex_any_loop:
  "matches_loop fuel (the_matcher ex_any) [ex_word ''a'' []]
     (encode_wordstring [ex_word ''a'' []]) (encode_positions [ex_word ''a'' []]) []
     ''Longest'' False False False 0
   = (replicate fuel ([], []), Running)"
proof (induction fuel)
  case 0
  show ?case by (simp add: matches_loop.simps length_encode_positions)
next
  case (Suc fuel)
  have s: "select_matches ''Longest'' False [([], [])] = Inr ([([], [])], 0)"
    by (simp add: select_matches_def)
  show ?case
    by (subst matches_loop.simps)
       (simp add: length_encode_positions ex_any_matches_at s Suc.IH)
qed

text \<open>
  C1 fails in the code. Under \<^verbatim>\<open>"Longest"\<close> without overlapping the increment of the cursor
  is the length of the yielded n-gram. When the only requested id is one the pattern does
  not define, it is skipped, the n-gram of every match is empty and the cursor stays where
  it is: after any number of iterations the generator has yielded as many results and is
  still running.
\<close>

theorem longest_nonoverlapping_never_ends:
  "AbstractPattern_matches fuel ex_any [ex_word ''a'' []] ''Longest'' False [''x''] False False
     = Some (Inr (replicate fuel ([], []), Running))"
  by (simp add: AbstractPattern_matches_def compiled_the_matcher[OF ex_any_compiles]
        matches_def ex_any_unknown_id ex_any_loop)

text \<open>
  C2 fails in the code. The increment is the number of tokens of the yielded n-gram, not of
  the matched span. With an ignored word inside the pattern, a match over tokens 0 to 2
  yields the indices \<open>[0, 2]\<close> and moves the cursor by 2, onto the last token of that match,
  where the next match starts: the second result begins at index 2, not after it.
\<close>

theorem nonoverlapping_matches_overlap:
  "AbstractPattern_matches 5 ex_ignore
     [ex_word ''a'' [], ex_word ''x'' [], ex_word ''a'' [], ex_word ''y'' [], ex_word ''a'' []]
     ''Longest'' False [''*''] False False
   = Some (Inr ([([ex_word ''a'' [], ex_word ''a'' []], [0, 2]),
                 ([ex_word ''a'' [], ex_word ''a'' []], [2, 4])], Exhausted))"
  by code_simp

lemma foldl_add_keeps:
  "d' \<in> set (isn a) \<Longrightarrow> d' \<in> set ((foldl (\<lambda>f a. f(a := f a @ [d])) isn as) a)"
proof (induction as arbitrary: isn)
  case Nil
  then show ?case by simp
next
  case (Cons x as)
  have h: "d' \<in> set ((isn(x := isn x @ [d])) a)" using Cons.prems by auto
  show ?case unfolding foldl_Cons by (rule Cons.IH[of "isn(x := isn x @ [d])", OF h])
qed

lemma foldl_add_member:
  "a \<in> set as \<Longrightarrow> d \<in> set ((foldl (\<lambda>f a. f(a := f a @ [d])) isn as) a)"
proof (induction as arbitrary: isn)
  case Nil
  then show ?case by simp
next
  case (Cons x as)
  show ?case
  proof (cases "a = x")
    case True
    have h: "d \<in> set ((isn(x := isn x @ [d])) a)" using True by simp
    show ?thesis unfolding foldl_Cons
      by (rule foldl_add_keeps[of d "isn(x := isn x @ [d])" a d as, OF h])
  next
    case False
    with Cons.prems have "a \<in> set as" by simp
    show ?thesis unfolding foldl_Cons
      by (rule Cons.IH[of "isn(x := isn x @ [d])", OF \<open>a \<in> set as\<close>])
  qed
qed

lemma fill_Cons_SomeD:
  assumes "fill_ignored_sub_numids (strid # strids) s2n n2p isn0 = Some (Inr isn)"
  shows "\<exists>numid as. map_of s2n strid = Some numid \<and> ancestors n2p numid = Some (Inr as)
           \<and> fill_ignored_sub_numids strids s2n n2p
                (foldl (\<lambda>f a. f(a := f a @ [numid])) isn0 as) = Some (Inr isn)"
proof (cases "map_of s2n strid")
  case None
  with assms show ?thesis by simp
next
  case (Some numid)
  show ?thesis
  proof (cases "ancestors n2p numid")
    case None
    with assms Some show ?thesis by simp
  next
    case (Some r)
    with assms \<open>map_of s2n strid = Some numid\<close> show ?thesis by (cases r) auto
  qed
qed

lemma fill_keeps:
  "fill_ignored_sub_numids strids s2n n2p isn0 = Some (Inr isn) \<Longrightarrow>
     d \<in> set (isn0 a) \<Longrightarrow> d \<in> set (isn a)"
proof (induction strids arbitrary: isn0)
  case Nil
  then show ?case by simp
next
  case (Cons strid strids)
  from fill_Cons_SomeD[OF Cons.prems(1)] obtain numid as where
    n: "map_of s2n strid = Some numid" and anc: "ancestors n2p numid = Some (Inr as)"
    and rest: "fill_ignored_sub_numids strids s2n n2p
                 (foldl (\<lambda>f a. f(a := f a @ [numid])) isn0 as) = Some (Inr isn)"
    by blast
  have "d \<in> set ((foldl (\<lambda>f a. f(a := f a @ [numid])) isn0 as) a)"
    by (rule foldl_add_keeps[of d isn0 a numid as, OF Cons.prems(2)])
  from Cons.IH[OF rest this] show ?case .
qed

lemma fill_member:
  "fill_ignored_sub_numids strids s2n n2p isn0 = Some (Inr isn) \<Longrightarrow>
     strid \<in> set strids \<Longrightarrow> map_of s2n strid = Some d \<Longrightarrow>
     ancestors n2p d = Some (Inr as) \<Longrightarrow> a \<in> set as \<Longrightarrow> d \<in> set (isn a)"
proof (induction strids arbitrary: isn0)
  case Nil
  then show ?case by simp
next
  case (Cons x strids)
  from fill_Cons_SomeD[OF Cons.prems(1)] obtain numid as' where
    n: "map_of s2n x = Some numid" and anc: "ancestors n2p numid = Some (Inr as')"
    and rest: "fill_ignored_sub_numids strids s2n n2p
                 (foldl (\<lambda>f a. f(a := f a @ [numid])) isn0 as') = Some (Inr isn)"
    by blast
  show ?case
  proof (cases "strid = x")
    case True
    with n anc Cons.prems have "numid = d" "as' = as" by auto
    have "d \<in> set ((foldl (\<lambda>f a. f(a := f a @ [d])) isn0 as) a)"
      by (rule foldl_add_member[OF Cons.prems(5)])
    with \<open>numid = d\<close> \<open>as' = as\<close> fill_keeps[OF rest] show ?thesis by blast
  next
    case False
    with Cons.prems have "strid \<in> set strids" by simp
    from Cons.IH[OF rest this Cons.prems(3,4,5)] show ?thesis .
  qed
qed

lemma post_parsing_fill:
  assumes "post_parsing pat st = Some (Inr (m, ws))"
  shows "\<exists>n2p. make_numid2parent (strid2parent st) (strid2numid m) = Inr n2p
         \<and> fill_ignored_sub_numids (ignored2strid st) (strid2numid m) n2p (\<lambda>_. [])
             = Some (Inr (ignored_sub_numids m))"
  using assms
  apply (auto simp: post_parsing_def Let_def bind_eq_Some_conv split: sum.splits)
  subgoal for a b x2a y by (cases y) auto
  done

text \<open>
  C3. Take the matcher that \<^verbatim>\<open>_post_parsing\<close> builds from a compiled expression and the
  tables of the traversal. Every yielded MatchResult comes from one match object \<open>mr\<close> of
  the compiled pattern at a cursor of the sentence, and for every slot \<open>numid\<close> and every
  ignored slot \<open>d\<close> below it (an entry of \<^verbatim>\<open>ignored2strid\<close> whose chain of parents, from
  \<open>d\<close> itself up to slot 0, passes through \<open>numid\<close>), no token index returned for \<open>numid\<close>
  belongs to a token whose start offset lies inside the span \<open>mr d\<close> of the ignored slot.
\<close>

theorem ignore_invariant:
  assumes pp: "post_parsing pat st = Some (Inr (m, ws))"
    and n2p: "make_numid2parent (strid2parent st) (strid2numid m) = Inr numid2parent"
    and y: "(ngram, wordnums) \<in>
              set (fst (matches fuel m words match_distance overlapping id_order
                          anchor_begin anchor_end))"
  shows "\<exists>mr i. i < length words
          \<and> from_match m words (encode_wordstring words) (encode_positions words ! i)
               (encode_positions words) (strids2numids m id_order) mr (ngram, wordnums)
          \<and> (\<forall>numid strid d as idx.
                strid \<in> set (ignored2strid st) \<and> map_of (strid2numid m) strid = Some d
                \<and> ancestors numid2parent d = Some (Inr as) \<and> numid \<in> set as
                \<and> idx \<in> set (wordnums_for m (encode_positions words) mr numid)
                \<longrightarrow> \<not> (fst (mr d) \<le> encode_positions words ! idx
                       \<and> encode_positions words ! idx < snd (mr d)))"
proof -
  from matches_yields[of words m id_order fuel match_distance overlapping anchor_begin anchor_end]
    y
  obtain mr i where i: "i < length words"
    and fm: "from_match m words (encode_wordstring words) (encode_positions words ! i)
               (encode_positions words) (strids2numids m id_order) mr (ngram, wordnums)"
    unfolding list_all_iff by blast
  from post_parsing_fill[OF pp] n2p
  have fill: "fill_ignored_sub_numids (ignored2strid st) (strid2numid m) numid2parent (\<lambda>_. [])
                = Some (Inr (ignored_sub_numids m))" by auto
  have "\<not> (fst (mr d) \<le> encode_positions words ! idx
           \<and> encode_positions words ! idx < snd (mr d))"
    if "strid \<in> set (ignored2strid st)" "map_of (strid2numid m) strid = Some d"
       "ancestors numid2parent d = Some (Inr as)" "numid \<in> set as"
       "idx \<in> set (wordnums_for m (encode_positions words) mr numid)"
    for numid strid d as idx
  proof -
    from fill_member[OF fill that(1,2,3,4)] have "d \<in> set (ignored_sub_numids m numid)" .
    with wordnums_for_props[of "encode_positions words" mr m numid] that(5)
    show ?thesis by (auto simp: list_all_iff)
  qed
  with i fm show ?thesis by blast
qed


lemma ex_ignore_parsed:
  "do_parse ex_ignore ''id_*'' None init_pstate = Inr (parsed ex_ignore)"
  by code_simp

lemma ex_ignore_post_parsing:
  "post_parsing (Cat (Chr WORD_SEPARATOR) (fst (parsed ex_ignore))) (snd (parsed ex_ignore))
     = Some (Inr (the_matcher ex_ignore, []))"
  using compiled_the_matcher[OF ex_ignore_compiles]
  by (simp add: PatternMatcher_def ex_ignore_parsed case_prod_unfold)

text \<open>
  An instance of C3: in the pattern with an ignored word, slot 1 is the ignored sequence
  and slot 0 (the whole match) is above it; the result \<open>[0, 2]\<close> leaves out token 1.
\<close>

theorem ignore_invariant_witness:
  "post_parsing (Cat (Chr WORD_SEPARATOR) (fst (parsed ex_ignore))) (snd (parsed ex_ignore))
     = Some (Inr (the_matcher ex_ignore, []))
   \<and> make_numid2parent (strid2parent (snd (parsed ex_ignore)))
       (strid2numid (the_matcher ex_ignore)) = Inr [(1, 0)]
   \<and> ([ex_word ''a'' [], ex_word ''a'' []], [0, 2]) \<in>
       set (fst (matches 3 (the_matcher ex_ignore)
                   [ex_word ''a'' [], ex_word ''x'' [], ex_word ''a'' []]
                   ''Longest'' True [''*''] False False))
   \<and> ''ignore_0'' \<in> set (ignored2strid (snd (parsed ex_ignore)))
   \<and> map_of (strid2numid (the_matcher ex_ignore)) ''ignore_0'' = Some 1
   \<and> ancestors [(1, 0)] 1 = Some (Inr [1, 0])
   \<and> (\<exists>mr i. i < length [ex_word ''a'' [], ex_word ''x'' [], ex_word ''a'' []]
        \<and> from_match (the_matcher ex_ignore)
             [ex_word ''a'' [], ex_word ''x'' [], ex_word ''a'' []]
             (encode_wordstring [ex_word ''a'' [], ex_word ''x'' [], ex_word ''a'' []])
             (encode_positions [ex_word ''a'' [], ex_word ''x'' [], ex_word ''a'' []] ! i)
             (encode_positions [ex_word ''a'' [], ex_word ''x'' [], ex_word ''a'' []])
             (strids2numids (the_matcher ex_ignore) [''*'']) mr
             ([ex_word ''a'' [], ex_word ''a'' []], [0, 2])
        \<and> list_all (\<lambda>idx. \<not> (fst (mr 1)
                  \<le> encode_positions [ex_word ''a'' [], ex_word ''x'' [], ex_word ''a'' []] ! idx
                \<and> encode_positions [ex_word ''a'' [], ex_word ''x'' [], ex_word ''a'' []] ! idx
                  < snd (mr 1)))
             (wordnums_for (the_matcher ex_ignore)
                (encode_positions [ex_word ''a'' [], ex_word ''x'' [], ex_word ''a'' []]) mr 0))"
proof -
  let ?ws = "[ex_word ''a'' [], ex_word ''x'' [], ex_word ''a'' []]"
  have h2: "make_numid2parent (strid2parent (snd (parsed ex_ignore)))
       (strid2numid (the_matcher ex_ignore)) = Inr [(1, 0)]"
    by code_simp
  have h3: "([ex_word ''a'' [], ex_word ''a'' []], [0, 2]) \<in>
       set (fst (matches 3 (the_matcher ex_ignore) ?ws ''Longest'' True [''*''] False False))"
    by code_simp
  have h4: "''ignore_0'' \<in> set (ignored2strid (snd (parsed ex_ignore)))" by code_simp
  have h5: "map_of (strid2numid (the_matcher ex_ignore)) ''ignore_0'' = Some 1" by code_simp
  have h6: "ancestors [(1, 0)] 1 = Some (Inr [1, 0])" by code_simp
  have h7: "(0::nat) \<in> set [1, 0]" by simp
  from ignore_invariant[OF ex_ignore_post_parsing h2 h3] obtain mr i where
    i: "i < length ?ws"
    and fm: "from_match (the_matcher ex_ignore) ?ws (encode_wordstring ?ws)
               (encode_positions ?ws ! i) (encode_positions ?ws)
               (strids2numids (the_matcher ex_ignore) [''*'']) mr
               ([ex_word ''a'' [], ex_word ''a'' []], [0, 2])"
    and inv: "\<And>numid strid d as idx.
                strid \<in> set (ignored2strid (snd (parsed ex_ignore)))
                \<and> map_of (strid2numid (the_matcher ex_ignore)) strid = Some d
                \<and> ancestors [(1, 0)] d = Some (Inr as) \<and> numid \<in> set as
                \<and> idx \<in> set (wordnums_for (the_matcher ex_ignore) (encode_positions ?ws) mr numid)
                \<Longrightarrow> \<not> (fst (mr d) \<le> encode_positions ?ws ! idx
                       \<and> encode_positions ?ws ! idx < snd (mr d))"
    by blast
  have "list_all (\<lambda>idx. \<not> (fst (mr 1) \<le> encode_positions ?ws ! idx
                \<and> encode_positions ?ws ! idx < snd (mr 1)))
             (wordnums_for (the_matcher ex_ignore) (encode_positions ?ws) mr 0)"
    unfolding list_all_iff using inv[of "''ignore_0''" 1 "[1, 0]" 0] h4 h5 h6 h7 by blast
  with ex_ignore_post_parsing h2 h3 h4 h5 h6 i fm show ?thesis by blast
qed













text \<open>The three ways of declaring an id twice, and the error of each.\<close>

lemma duplicate_id_errors:
  "map_option (map_sum id snd)
     (PatternMatcher (SequencePattern None None False
        [WordPattern (Some ''a'') [] [], WordPattern (Some ''a'') [] []]))
     = Some (Inl (IdDefinedTwice ''a''))"
  "map_option (map_sum id snd)
     (PatternMatcher (SequencePattern None None False
        [SequencePattern (Some ''a'') None False [WordPattern None [] []],
         SequencePattern (Some ''a'') None False [WordPattern None [] []]]))
     = Some (Inl (ReError ''redefinition of group name''))"
  "map_option (map_sum id snd) (PatternMatcher ex_dup)
     = Some (Inl (ReError ''redefinition of group name''))"
  by code_simp+






text \<open>The second property plays no part in matching: only \<^verbatim>\<open>dobj\<close> is looked for.\<close>

lemma two_syndeps_same_matches:
  "AbstractPattern_matches 2 ex_two_syndeps
     [ex_word ''eat'' [], ex_word ''pie'' ''nsubj:1'']
     ''All'' True [''*''] False False = Some (Inr ([], Exhausted))"
  "AbstractPattern_matches 2 ex_two_syndeps
     [ex_word ''eat'' [], ex_word ''pie'' ''dobj:1'']
     ''All'' True [''*''] False False
   = Some (Inr ([([ex_word ''eat'' [], ex_word ''pie'' ''dobj:1''], [0, 1])], Exhausted))"
  by code_simp+

lemma soundD:
  "sound S f \<Longrightarrow> f k i e = Some res \<Longrightarrow> \<exists>j e'. S i e j e' \<and> k j e' = Some res"
  unfolding sound_def by blast

lemma iter_refl: "iter S i e i e"
  by (simp add: iter_def)

lemma iter_step: "S i e m em \<Longrightarrow> iter S m em j e' \<Longrightarrow> iter S i e j e'"
  unfolding iter_def by (rule converse_rtranclp_into_rtranclp) auto

lemma sound_rep_loop:
  assumes b: "sound S body"
  shows "sound (iter S) (rep_loop fuel body lo hi)"
  unfolding sound_def
proof (induction fuel arbitrary: lo hi)
  case 0
  show ?case by (auto split: if_splits intro: iter_refl)
next
  case (Suc fuel)
  show ?case
  proof (intro allI impI)
    fix k i e res
    assume r: "rep_loop (Suc fuel) body lo hi k i e = Some res"
    let ?k' = "\<lambda>j e'. if j = i \<and> lo = 0 then None
                 else rep_loop fuel body (lo - 1) (map_option (\<lambda>h. h - 1) hi) k j e'"
    show "\<exists>j e'. iter S i e j e' \<and> k j e' = Some res"
    proof (cases "hi = Some 0")
      case True
      with r show ?thesis by (auto intro: iter_refl)
    next
      case False
      show ?thesis
      proof (cases "body ?k' i e")
        case None
        with r False show ?thesis by (auto split: if_splits intro: iter_refl)
      next
        case (Some res')
        with r False have "res' = res" by simp
        with Some soundD[OF b, of ?k' i e res] obtain m em where
          s: "S i e m em" and k': "?k' m em = Some res" by blast
        from k' have "rep_loop fuel body (lo - 1) (map_option (\<lambda>h. h - 1) hi) k m em = Some res"
          by (auto split: if_splits)
        with Suc.IH obtain j e' where "iter S m em j e'" "k j e' = Some res" by blast
        with s show ?thesis by (blast intro: iter_step)
      qed
    qed
  qed
qed

lemma sound_run: "sound (sem r s) (run r s)"
proof (induction r)
  case (Chr c)
  show ?case unfolding sound_def by (auto split: if_splits)
next
  case (In cs)
  show ?case unfolding sound_def by (auto split: if_splits)
next
  case (NotIn cs)
  show ?case unfolding sound_def by (auto split: if_splits)
next
  case Eps
  show ?case unfolding sound_def by auto
next
  case (Cat r1 r2)
  show ?case unfolding sound_def
  proof (intro allI impI)
    fix k i e res
    assume "run (Cat r1 r2) s k i e = Some res"
    then have "run r1 s (\<lambda>j e'. run r2 s k j e') i e = Some res" by simp
    from soundD[OF Cat.IH(1) this] obtain m em where
      m: "sem r1 s i e m em" "run r2 s k m em = Some res" by blast
    from soundD[OF Cat.IH(2) m(2)] obtain j e' where
      "sem r2 s m em j e'" "k j e' = Some res" by blast
    with m show "\<exists>j e'. sem (Cat r1 r2) s i e j e' \<and> k j e' = Some res" by auto
  qed
next
  case (Alt r1 r2)
  show ?case unfolding sound_def
  proof (intro allI impI)
    fix k i e res
    assume "run (Alt r1 r2) s k i e = Some res"
    then have "run r1 s k i e = Some res \<or> run r2 s k i e = Some res"
      by (auto split: option.splits)
    then show "\<exists>j e'. sem (Alt r1 r2) s i e j e' \<and> k j e' = Some res"
    proof
      assume "run r1 s k i e = Some res"
      from soundD[OF Alt.IH(1) this] show ?thesis by auto
    next
      assume "run r2 s k i e = Some res"
      from soundD[OF Alt.IH(2) this] show ?thesis by auto
    qed
  qed
next
  case (Quant r q)
  show ?case
  proof (cases "parse_repeat q")
    case None
    show ?thesis unfolding sound_def
    proof (intro allI impI)
      fix k i e res
      assume r: "run (Quant r q) s k i e = Some res"
      let ?k' = "\<lambda>j e'. if take (length q) (drop j s) = q then k (j + length q) e' else None"
      from r None have "run r s ?k' i e = Some res" by simp
      from soundD[OF Quant.IH this] obtain m em where
        m: "sem r s i e m em" "?k' m em = Some res" by blast
      then have "lit_at s q m (m + length q)" "k (m + length q) em = Some res"
        by (auto simp: lit_at_def split: if_splits)
      with m(1) None show "\<exists>j e'. sem (Quant r q) s i e j e' \<and> k j e' = Some res"
        by auto
    qed
  next
    case (Some a)
    obtain lo hi rest where a: "a = (lo, hi, rest)" by (cases a)
    show ?thesis unfolding sound_def
    proof (intro allI impI)
      fix k i e res
      assume r: "run (Quant r q) s k i e = Some res"
      let ?k' = "\<lambda>j e'. if take (length rest) (drop j s) = rest then k (j + length rest) e'
                   else None"
      from r Some a have "rep_loop (length s - i + lo + 1) (run r s) lo hi ?k' i e = Some res"
        by simp
      from soundD[OF sound_rep_loop[OF Quant.IH] this] obtain m em where
        m: "iter (sem r s) i e m em" "?k' m em = Some res" by blast
      then have "lit_at s rest m (m + length rest)" "k (m + length rest) em = Some res"
        by (auto simp: lit_at_def split: if_splits)
      with m(1) Some a show "\<exists>j e'. sem (Quant r q) s i e j e' \<and> k j e' = Some res"
        by auto
    qed
  qed
next
  case (Grp n r)
  show ?case unfolding sound_def
  proof (intro allI impI)
    fix k i e res
    assume "run (Grp n r) s k i e = Some res"
    then have "run r s (\<lambda>j e'. k j ((n, (i, j)) # e')) i e = Some res" by simp
    from soundD[OF Grp.IH this]
    show "\<exists>j e'. sem (Grp n r) s i e j e' \<and> k j e' = Some res" by auto
  qed
next
  case (Bref n)
  show ?case unfolding sound_def
  proof (intro allI impI)
    fix k i e res
    assume r: "run (Bref n) s k i e = Some res"
    then obtain b f where bf: "map_of e n = Some (b, f)" by (auto split: option.splits)
    let ?t = "take (f - b) (drop b s)"
    from r bf have "take (length ?t) (drop i s) = ?t" "k (i + length ?t) e = Some res"
      by (auto simp: Let_def split: if_splits)
    then have "lit_at s ?t i (i + length ?t)" by (simp add: lit_at_def)
    with bf \<open>k (i + length ?t) e = Some res\<close>
    show "\<exists>j e'. sem (Bref n) s i e j e' \<and> k j e' = Some res" by auto
  qed
next
  case (Look positive r)
  show ?case unfolding sound_def
  proof (intro allI impI)
    fix k i e res
    assume r: "run (Look positive r) s k i e = Some res"
    show "\<exists>j e'. sem (Look positive r) s i e j e' \<and> k j e' = Some res"
    proof (cases "run r s (\<lambda>j e'. Some (j, e')) i e")
      case None
      with r show ?thesis by (auto split: if_splits)
    next
      case (Some a)
      obtain m em where a: "a = (m, em)" by (cases a)
      from soundD[OF Look.IH Some] a have "sem r s i e m em" by auto
      with r Some a show ?thesis by (auto split: if_splits)
    qed
  qed
qed


lemma seg_append: "seg s i m xs \<Longrightarrow> seg s m j ys \<Longrightarrow> seg s i j (xs @ ys)"
  by (auto simp: seg_def)

lemma seg_text: "seg s b f xs \<Longrightarrow> take (f - b) (drop b s) = xs"
  by (auto simp: seg_def)

lemma seg_lit_at: "lit_at s t i j \<Longrightarrow> seg s i j t"
  unfolding lit_at_def seg_def
  by (metis add.commute append_take_drop_id drop_drop)

lemma seg_chr: "sem (Chr c) s i e j e' \<Longrightarrow> seg s i j [c] \<and> e' = e"
  by (auto simp: seg_def Cons_nth_drop_Suc)

lemma seg_lits: "sem (lits t) s i e j e' \<Longrightarrow> seg s i j t \<and> e' = e"
proof (induction t arbitrary: i)
  case Nil
  then show ?case by (simp add: seg_def)
next
  case (Cons c t)
  from Cons.prems obtain m em where c: "sem (Chr c) s i e m em" and t: "sem (lits t) s m em j e'"
    by auto
  from seg_chr[OF c] have sc: "seg s i m [c]" and em: "em = e" by auto
  from Cons.IH[OF t[unfolded em]] have "seg s m j t" "e' = e" by auto
  with seg_append[OF sc] show ?case by auto
qed

lemma seg_iter_notin:
  assumes "iter (sem (NotIn cs) s) i e j e'"
  shows "e' = e \<and> (\<exists>xs. seg s i j xs \<and> set xs \<inter> set cs = {})"
  using assms unfolding iter_def
proof (induction rule: rtranclp_induct2)
  case refl
  show ?case by (auto simp: seg_def)
next
  case (step m em j e')
  from step.IH obtain xs where em: "em = e" and xs: "seg s i m xs" "set xs \<inter> set cs = {}"
    by blast
  from step.hyps(2) have n: "m < length s" "s ! m \<notin> set cs" "j = Suc m" "e' = em" by auto
  from n have "seg s m j [s ! m]" by (auto simp: seg_def Cons_nth_drop_Suc)
  from seg_append[OF xs(1) this] have "seg s i j (xs @ [s ! m])" .
  moreover have "set (xs @ [s ! m]) \<inter> set cs = {}" using xs(2) n by auto
  ultimately show ?case using n em by blast
qed

lemma seg_wild:
  "sem ATTRIBUTE_WILDCARD s i e j e' \<Longrightarrow> e' = e \<and> (\<exists>xs. seg s i j xs \<and> sep_free xs)"
  using seg_iter_notin[of "[ATTRIBUTE_SEPARATOR, WORD_SEPARATOR]" s i e j e']
  by (auto simp: ATTRIBUTE_WILDCARD_def parse_repeat_def lit_at_def sep_free_def)

lemma seg_bref:
  "sem (Bref n) s i e j e' \<Longrightarrow> map_of e n = Some (b, f) \<Longrightarrow> seg s b f num \<Longrightarrow>
     seg s i j num \<and> e' = e"
  by (auto simp: seg_text dest: seg_lit_at)

lemma ex_self_parsed: "Cat (Chr WORD_SEPARATOR) (fst (parsed ex_self)) = ex_self_rx"
  by code_simp

lemma ex_self_shape:
  assumes "sem ex_self_rx s i [] j e'"
  shows "\<exists>num f1 f2 f3 pre post.
           sep_free num \<and> sep_free f1 \<and> sep_free f2 \<and> sep_free f3 \<and> sep_free pre \<and> sep_free post
           \<and> seg s i j (WORD_SEPARATOR # num @ ATTRIBUTE_SEPARATOR # f1 @ ATTRIBUTE_SEPARATOR # f2
                @ ATTRIBUTE_SEPARATOR # f3 @ ATTRIBUTE_SEPARATOR
                # (pre @ '';dobj:'' @ num @ '';'' @ post) @ [WORD_SEPARATOR])"
proof -
  from assms obtain i1 j1 j1' j2 j2' j3 j3' j4 j4' a a' b b' c e1 e2 e3 e4 e5 e6 e7 e8 e9 e10 e11 e12 e13 e14 e15 where
    c0: "sem (Chr WORD_SEPARATOR) s i [] i1 e1"
    and w1: "sem ATTRIBUTE_WILDCARD s i1 e1 j1 e2"
    and c1: "sem (Chr ATTRIBUTE_SEPARATOR) s j1 ((''wid_n1_wordnum'', (i1, j1)) # e2) j1' e3"
    and w2: "sem ATTRIBUTE_WILDCARD s j1' e3 j2 e4"
    and c2: "sem (Chr ATTRIBUTE_SEPARATOR) s j2 ((''wid_n1_surface'', (j1', j2)) # e4) j2' e5"
    and w3: "sem ATTRIBUTE_WILDCARD s j2' e5 j3 e6"
    and c3: "sem (Chr ATTRIBUTE_SEPARATOR) s j3 ((''wid_n1_lemma'', (j2', j3)) # e6) j3' e7"
    and w4: "sem ATTRIBUTE_WILDCARD s j3' e7 j4 e8"
    and c4: "sem (Chr ATTRIBUTE_SEPARATOR) s j4 ((''wid_n1_pos'', (j3', j4)) # e8) j4' e9"
    and w5: "sem ATTRIBUTE_WILDCARD s j4' e9 a e10"
    and l: "sem (lits '';dobj:'') s a e10 a' e11"
    and br: "sem (Bref ''wid_n1_wordnum'') s a' e11 b e12"
    and c5: "sem (Chr CHR '';'') s b e12 b' e13"
    and w6: "sem ATTRIBUTE_WILDCARD s b' e13 c e14"
    and c6: "sem (Chr WORD_SEPARATOR) s c e14 j e15"
    unfolding ex_self_rx_def
    apply (simp only: sem.simps(5,8))
    apply (elim exE conjE)
    apply hypsubst
    apply (rule that; assumption)
    done
  from seg_chr[OF c0] have s0: "seg s i i1 [WORD_SEPARATOR]" and e1: "e1 = []" by auto
  from seg_wild[OF w1] obtain num where num: "seg s i1 j1 num" "sep_free num" and e2: "e2 = e1"
    by auto
  from seg_chr[OF c1] have s1: "seg s j1 j1' [ATTRIBUTE_SEPARATOR]"
    and e3: "e3 = (''wid_n1_wordnum'', (i1, j1)) # e2" by auto
  from seg_wild[OF w2] obtain f1 where f1: "seg s j1' j2 f1" "sep_free f1" and e4: "e4 = e3"
    by auto
  from seg_chr[OF c2] have s2: "seg s j2 j2' [ATTRIBUTE_SEPARATOR]"
    and e5: "e5 = (''wid_n1_surface'', (j1', j2)) # e4" by auto
  from seg_wild[OF w3] obtain f2 where f2: "seg s j2' j3 f2" "sep_free f2" and e6: "e6 = e5"
    by auto
  from seg_chr[OF c3] have s3: "seg s j3 j3' [ATTRIBUTE_SEPARATOR]"
    and e7: "e7 = (''wid_n1_lemma'', (j2', j3)) # e6" by auto
  from seg_wild[OF w4] obtain f3 where f3: "seg s j3' j4 f3" "sep_free f3" and e8: "e8 = e7"
    by auto
  from seg_chr[OF c4] have s4: "seg s j4 j4' [ATTRIBUTE_SEPARATOR]"
    and e9: "e9 = (''wid_n1_pos'', (j3', j4)) # e8" by auto
  from seg_wild[OF w5] obtain pre where pre: "seg s j4' a pre" "sep_free pre" and e10: "e10 = e9"
    by auto
  from seg_lits[OF l] have sl: "seg s a a' '';dobj:''" and e11: "e11 = e10" by auto
  have m: "map_of e11 ''wid_n1_wordnum'' = Some (i1, j1)"
    by (simp add: e11 e10 e9 e8 e7 e6 e5 e4 e3)
  from seg_bref[OF br m num(1)] have sb: "seg s a' b num" and e12: "e12 = e11" by auto
  from seg_chr[OF c5] have s5: "seg s b b' '';''" by auto
  from seg_wild[OF w6] obtain post where post: "seg s b' c post" "sep_free post" by auto
  from seg_chr[OF c6] have s6: "seg s c j [WORD_SEPARATOR]" by auto
  note segs = s0 num(1) s1 f1(1) s2 f2(1) s3 f3(1) s4 pre(1) sl sb s5 post(1) s6
  have "seg s i j ([WORD_SEPARATOR] @ num @ [ATTRIBUTE_SEPARATOR] @ f1 @ [ATTRIBUTE_SEPARATOR]
          @ f2 @ [ATTRIBUTE_SEPARATOR] @ f3 @ [ATTRIBUTE_SEPARATOR] @ pre @ '';dobj:'' @ num
          @ '';'' @ post @ [WORD_SEPARATOR])"
    by (intro seg_append) (rule segs)+
  then have "seg s i j (WORD_SEPARATOR # num @ ATTRIBUTE_SEPARATOR # f1 @ ATTRIBUTE_SEPARATOR # f2
                @ ATTRIBUTE_SEPARATOR # f3 @ ATTRIBUTE_SEPARATOR
                # (pre @ '';dobj:'' @ num @ '';'' @ post) @ [WORD_SEPARATOR])"
    by simp
  with num(2) f1(2) f2(2) f3(2) pre(2) post(2) show ?thesis by blast
qed


lemma join_five:
  "join c [a1, a2, a3, a4, a5] = a1 @ c # a2 @ c # a3 @ c # a4 @ c # a5"
  by simp

lemma join_concat: "es \<noteq> [] \<Longrightarrow> join c es @ [c] = concat (map (\<lambda>e. e @ [c]) es)"
  by (induction c es rule: join.induct) auto

lemma encode_struct:
  "i < length ws \<Longrightarrow> int (length pre) = l - 1 \<Longrightarrow>
     \<exists>tail. drop (nat (fst (encode_words ws n l) ! i - 1))
              (pre @ WORD_SEPARATOR
                 # concat (map (\<lambda>e. e @ [WORD_SEPARATOR]) (snd (encode_words ws n l))))
       = WORD_SEPARATOR
           # WORD_FORMAT (str_nat (n + i)) (w_surface (ws ! i)) (w_lemma (ws ! i)) (w_pos (ws ! i))
               ('';'' @ w_syn (ws ! i) @ '';'')
           @ WORD_SEPARATOR # tail"
proof (induction ws arbitrary: i n l pre)
  case Nil
  then show ?case by simp
next
  case (Cons w ws)
  let ?elem = "WORD_FORMAT (str_nat n) (w_surface w) (w_lemma w) (w_pos w)
                 ('';'' @ w_syn w @ '';'')"
  let ?l' = "l + int (length ?elem) + 1"
  let ?r = "encode_words ws (n + 1) ?l'"
  have f: "fst (encode_words (w # ws) n l) = l # fst ?r"
    and s: "snd (encode_words (w # ws) n l) = ?elem # snd ?r"
    by (simp_all add: Let_def case_prod_unfold)
  show ?case
  proof (cases i)
    case 0
    have "nat (l - 1) = length pre" using Cons.prems(2) by simp
    then show ?thesis unfolding f s 0 by simp
  next
    case (Suc i')
    with Cons.prems(1) have i': "i' < length ws" by simp
    have len: "int (length (pre @ WORD_SEPARATOR # ?elem)) = ?l' - 1"
      using Cons.prems(2) by simp
    from Cons.IH[OF i' len, of "n + 1"] obtain tail where
      "drop (nat (fst ?r ! i' - 1))
         ((pre @ WORD_SEPARATOR # ?elem) @ WORD_SEPARATOR
            # concat (map (\<lambda>e. e @ [WORD_SEPARATOR]) (snd ?r)))
       = WORD_SEPARATOR
           # WORD_FORMAT (str_nat (n + 1 + i')) (w_surface (ws ! i')) (w_lemma (ws ! i'))
               (w_pos (ws ! i')) ('';'' @ w_syn (ws ! i') @ '';'')
           @ WORD_SEPARATOR # tail" by blast
    then show ?thesis unfolding f s Suc by simp
  qed
qed

lemma encode_wordstring_struct:
  assumes "i < length words"
  shows "\<exists>tail. drop (nat (encode_positions words ! i - 1)) (encode_wordstring words)
       = WORD_SEPARATOR
           # WORD_FORMAT (str_nat (Suc i)) (w_surface (words ! i)) (w_lemma (words ! i))
               (w_pos (words ! i)) ('';'' @ w_syn (words ! i) @ '';'')
           @ WORD_SEPARATOR # tail"
proof -
  from assms have "length (snd (encode_words words 1 1)) \<noteq> 0"
    by (cases words) (auto simp: Let_def case_prod_unfold)
  then have ne: "snd (encode_words words 1 1) \<noteq> []" by simp
  from encode_struct[OF assms, of "[]" 1 1] join_concat[OF ne, of WORD_SEPARATOR]
  show ?thesis by (simp add: encode_positions_def encode_wordstring_def)
qed

lemma sep_split:
  "sep_free xs \<Longrightarrow> sep_free ys \<Longrightarrow> \<not> sep_free [c] \<Longrightarrow> \<not> sep_free [d] \<Longrightarrow>
     xs @ c # r = ys @ d # r' \<Longrightarrow> xs = ys \<and> c = d \<and> r = r'"
proof (induction xs arbitrary: ys)
  case Nil
  then show ?case by (cases ys) (auto simp: sep_free_def)
next
  case (Cons x xs)
  show ?case
  proof (cases ys)
    case Nil
    with Cons.prems show ?thesis by (auto simp: sep_free_def)
  next
    case (Cons y ys')
    with Cons.prems have "sep_free xs" "sep_free ys'" "xs @ c # r = ys' @ d # r'" "x = y"
      by (auto simp: sep_free_def)
    with Cons.IH[of ys'] Cons.prems(3,4) Cons show ?thesis by auto
  qed
qed

lemma digit_char_code: "d < 10 \<Longrightarrow> of_char (digit_char d) = 48 + d"
  by (simp add: digit_char_def)

lemma str_nat_digits: "\<forall>c\<in>set (str_nat n). (48::nat) \<le> of_char c"
proof (induction n rule: str_nat.induct)
  case (1 n)
  show ?case
  proof (cases "n < 10")
    case True
    then show ?thesis using digit_char_code[of n] by (subst str_nat.simps) simp
  next
    case False
    have "n mod 10 < 10" by simp
    from digit_char_code[OF this] "1.IH"[OF False] False show ?thesis
      by (subst str_nat.simps) simp
  qed
qed

lemma sep_free_str_nat: "sep_free (str_nat n)"
  using str_nat_digits[of n]
  by (auto simp: sep_free_def ATTRIBUTE_SEPARATOR_def WORD_SEPARATOR_def)


lemma ex_self_compiles: "map_option (map_sum id snd) (PatternMatcher ex_self) = Some (Inr [])"
  by code_simp

lemma ex_self_do_parse: "do_parse ex_self ''id_*'' None init_pstate = Inr (parsed ex_self)"
  by code_simp

lemma ex_self_compiled: "compiled_pattern (the_matcher ex_self) = rx_match ex_self_rx"
proof -
  from compiled_the_matcher[OF ex_self_compiles]
  have "post_parsing (Cat (Chr WORD_SEPARATOR) (fst (parsed ex_self))) (snd (parsed ex_self))
          = Some (Inr (the_matcher ex_self, []))"
    by (simp add: PatternMatcher_def ex_self_do_parse case_prod_unfold)
  from post_parsing_compiled[OF this] show ?thesis by (simp add: ex_self_parsed)
qed

lemma rx_match_self_shape:
  assumes m: "rx_match ex_self_rx s pos current_end = Some mr" and pos: "0 \<le> pos"
  shows "\<exists>num f1 f2 f3 pre post zs.
           sep_free num \<and> sep_free f1 \<and> sep_free f2 \<and> sep_free f3 \<and> sep_free pre \<and> sep_free post
           \<and> drop (nat pos) s
               = (WORD_SEPARATOR # num @ ATTRIBUTE_SEPARATOR # f1 @ ATTRIBUTE_SEPARATOR # f2
                    @ ATTRIBUTE_SEPARATOR # f3 @ ATTRIBUTE_SEPARATOR
                    # (pre @ '';dobj:'' @ num @ '';'' @ post) @ [WORD_SEPARATOR]) @ zs"
proof -
  define p where "p = clamp_pos s pos"
  define e where "e = clamp_pos s current_end"
  from m obtain j env where
    run: "run ex_self_rx (take e s) (\<lambda>j env. Some (j, env)) p [] = Some (j, env)"
    unfolding rx_match_def Let_def p_def[symmetric] e_def[symmetric]
    by (auto split: if_splits option.splits)
  from soundD[OF sound_run run] obtain j' e' where "sem ex_self_rx (take e s) p [] j' e'"
    by blast
  from ex_self_shape[OF this] obtain num f1 f2 f3 pre post where
    sf: "sep_free num" "sep_free f1" "sep_free f2" "sep_free f3" "sep_free pre" "sep_free post"
    and sg: "seg (take e s) p j'
               (WORD_SEPARATOR # num @ ATTRIBUTE_SEPARATOR # f1 @ ATTRIBUTE_SEPARATOR # f2
                  @ ATTRIBUTE_SEPARATOR # f3 @ ATTRIBUTE_SEPARATOR
                  # (pre @ '';dobj:'' @ num @ '';'' @ post) @ [WORD_SEPARATOR])"
    by blast
  let ?X = "WORD_SEPARATOR # num @ ATTRIBUTE_SEPARATOR # f1 @ ATTRIBUTE_SEPARATOR # f2
              @ ATTRIBUTE_SEPARATOR # f3 @ ATTRIBUTE_SEPARATOR
              # (pre @ '';dobj:'' @ num @ '';'' @ post) @ [WORD_SEPARATOR]"
  from sg have d: "drop p (take e s) = ?X @ drop j' (take e s)" by (simp add: seg_def)
  then have "drop p (take e s) \<noteq> []" by simp
  then have "p < length s" by simp
  with pos have pp: "p = nat pos" unfolding p_def clamp_pos_def by auto
  have "drop p s = take (e - p) (drop p s) @ drop (e - p) (drop p s)"
    by (simp only: append_take_drop_id)
  also have "take (e - p) (drop p s) = drop p (take e s)" by (simp only: drop_take)
  finally have "drop p s = (?X @ drop j' (take e s)) @ drop (e - p) (drop p s)"
    by (simp only: d)
  then have "drop (nat pos) s = ?X @ (drop j' (take e s) @ drop (e - p) (drop p s))"
    by (simp only: pp append_assoc)
  with sf show ?thesis by blast
qed

lemma encode_positions_ge1: "i < length words \<Longrightarrow> 1 \<le> encode_positions words ! i"
  using encode_words_lower[of 1 words 1]
  by (auto simp: encode_positions_def list_all_length length_encode_words)

text \<open>
  C9 (amended). The pattern with a word of id \<open>n1\<close> whose syntactic relation is the
  self-reference \<^verbatim>\<open>dobj:n1\<close> compiles, without error or warning. Over a sentence whose
  attributes hold no separator character, it yields a match only when some token names its
  own position as the target of a \<^verbatim>\<open>dobj\<close> relation: the encoded field \<^verbatim>\<open>;syn;\<close> of
  token \<open>i\<close> (counted from 0) contains \<^verbatim>\<open>;dobj:N;\<close> with \<open>N = i + 1\<close>. Over every other
  sentence it yields no match.
\<close>

theorem self_reference_needs_self_dependency:
  assumes wf: "\<forall>w\<in>set words. sep_free (w_surface w) \<and> sep_free (w_lemma w)
                  \<and> sep_free (w_pos w) \<and> sep_free (w_syn w)"
    and y: "y \<in> set (fst (matches fuel (the_matcher ex_self) words match_distance overlapping
                            id_order anchor_begin anchor_end))"
  shows "PatternMatcher ex_self = Some (Inr (the_matcher ex_self, []))
       \<and> (\<exists>i pre post. i < length words
            \<and> '';'' @ w_syn (words ! i) @ '';''
                = pre @ '';dobj:'' @ str_nat (Suc i) @ '';'' @ post)"
proof -
  let ?m = "the_matcher ex_self"
  from matches_yields[of words ?m id_order fuel match_distance overlapping anchor_begin
      anchor_end] y
  obtain mr i where i: "i < length words"
    and fm: "from_match ?m words (encode_wordstring words) (encode_positions words ! i)
               (encode_positions words) (strids2numids ?m id_order) mr y"
    unfolding list_all_iff by blast
  from fm obtain current_end where
    "rx_match ex_self_rx (encode_wordstring words) (encode_positions words ! i - 1) current_end
       = Some mr"
    by (auto simp: from_match_def ex_self_compiled)
  from rx_match_self_shape[OF this] encode_positions_ge1[OF i]
  obtain num f1 f2 f3 pre post zs where
    sf: "sep_free num" "sep_free f1" "sep_free f2" "sep_free f3" "sep_free pre" "sep_free post"
    and d: "drop (nat (encode_positions words ! i - 1)) (encode_wordstring words)
              = (WORD_SEPARATOR # num @ ATTRIBUTE_SEPARATOR # f1 @ ATTRIBUTE_SEPARATOR # f2
                   @ ATTRIBUTE_SEPARATOR # f3 @ ATTRIBUTE_SEPARATOR
                   # (pre @ '';dobj:'' @ num @ '';'' @ post) @ [WORD_SEPARATOR]) @ zs"
    by auto
  let ?w = "words ! i"
  from i wf have w: "sep_free (w_surface ?w)" "sep_free (w_lemma ?w)" "sep_free (w_pos ?w)"
    "sep_free (w_syn ?w)" by auto
  from w(4) have syn: "sep_free ('';'' @ w_syn ?w @ '';'')"
    by (simp add: sep_free_def ATTRIBUTE_SEPARATOR_def WORD_SEPARATOR_def)
  have sp: "sep_free (pre @ '';dobj:'' @ num @ '';'' @ post)"
    using sf by (simp add: sep_free_def ATTRIBUTE_SEPARATOR_def WORD_SEPARATOR_def)
  have ns: "\<not> sep_free [ATTRIBUTE_SEPARATOR]" "\<not> sep_free [WORD_SEPARATOR]"
    by (simp_all add: sep_free_def)
  from encode_wordstring_struct[OF i] obtain tail where
    "drop (nat (encode_positions words ! i - 1)) (encode_wordstring words)
       = WORD_SEPARATOR
           # WORD_FORMAT (str_nat (Suc i)) (w_surface ?w) (w_lemma ?w) (w_pos ?w)
               ('';'' @ w_syn ?w @ '';'')
           @ WORD_SEPARATOR # tail" by blast
  with d have eq: "num @ ATTRIBUTE_SEPARATOR # (f1 @ ATTRIBUTE_SEPARATOR # (f2
                   @ ATTRIBUTE_SEPARATOR # (f3 @ ATTRIBUTE_SEPARATOR
                   # ((pre @ '';dobj:'' @ num @ '';'' @ post) @ WORD_SEPARATOR # zs))))
              = str_nat (Suc i) @ ATTRIBUTE_SEPARATOR # (w_surface ?w @ ATTRIBUTE_SEPARATOR
                   # (w_lemma ?w @ ATTRIBUTE_SEPARATOR # (w_pos ?w @ ATTRIBUTE_SEPARATOR
                   # (('';'' @ w_syn ?w @ '';'') @ WORD_SEPARATOR # tail))))"
    unfolding WORD_FORMAT_def join_five by simp
  from sep_split[OF sf(1) sep_free_str_nat ns(1) ns(1) eq]
  have n: "num = str_nat (Suc i)"
    and eq1: "f1 @ ATTRIBUTE_SEPARATOR # (f2 @ ATTRIBUTE_SEPARATOR # (f3 @ ATTRIBUTE_SEPARATOR
                   # ((pre @ '';dobj:'' @ num @ '';'' @ post) @ WORD_SEPARATOR # zs)))
              = w_surface ?w @ ATTRIBUTE_SEPARATOR
                   # (w_lemma ?w @ ATTRIBUTE_SEPARATOR # (w_pos ?w @ ATTRIBUTE_SEPARATOR
                   # (('';'' @ w_syn ?w @ '';'') @ WORD_SEPARATOR # tail)))"
    by auto
  from sep_split[OF sf(2) w(1) ns(1) ns(1) eq1]
  have eq2: "f2 @ ATTRIBUTE_SEPARATOR # (f3 @ ATTRIBUTE_SEPARATOR
                   # ((pre @ '';dobj:'' @ num @ '';'' @ post) @ WORD_SEPARATOR # zs))
              = w_lemma ?w @ ATTRIBUTE_SEPARATOR # (w_pos ?w @ ATTRIBUTE_SEPARATOR
                   # (('';'' @ w_syn ?w @ '';'') @ WORD_SEPARATOR # tail))"
    by auto
  from sep_split[OF sf(3) w(2) ns(1) ns(1) eq2]
  have eq3: "f3 @ ATTRIBUTE_SEPARATOR
                   # ((pre @ '';dobj:'' @ num @ '';'' @ post) @ WORD_SEPARATOR # zs)
              = w_pos ?w @ ATTRIBUTE_SEPARATOR
                   # (('';'' @ w_syn ?w @ '';'') @ WORD_SEPARATOR # tail)"
    by auto
  from sep_split[OF sf(4) w(3) ns(1) ns(1) eq3]
  have eq4: "(pre @ '';dobj:'' @ num @ '';'' @ post) @ WORD_SEPARATOR # zs
              = ('';'' @ w_syn ?w @ '';'') @ WORD_SEPARATOR # tail"
    by auto
  from sep_split[OF sp syn ns(2) ns(2) eq4] n
  have "'';'' @ w_syn ?w @ '';'' = pre @ '';dobj:'' @ str_nat (Suc i) @ '';'' @ post"
    by auto
  with i compiled_the_matcher[OF ex_self_compiles] show ?thesis by blast
qed

text \<open>
  An instance of C9 (amended): the second token depends on position 2, its own position.
\<close>

theorem self_reference_needs_self_dependency_witness:
  "list_all (\<lambda>w. sep_free (w_surface w) \<and> sep_free (w_lemma w) \<and> sep_free (w_pos w)
                \<and> sep_free (w_syn w))
     [ex_word ''a'' ''dobj:2'', ex_word ''b'' ''nsubj:1;dobj:2'']
   \<and> ([ex_word ''b'' ''nsubj:1;dobj:2''], [1]) \<in>
       set (fst (matches 2 (the_matcher ex_self)
                   [ex_word ''a'' ''dobj:2'', ex_word ''b'' ''nsubj:1;dobj:2'']
                   ''All'' True [''*''] False False))
   \<and> PatternMatcher ex_self = Some (Inr (the_matcher ex_self, []))
   \<and> (\<exists>i pre post. i < length [ex_word ''a'' ''dobj:2'', ex_word ''b'' ''nsubj:1;dobj:2'']
        \<and> '';'' @ w_syn ([ex_word ''a'' ''dobj:2'', ex_word ''b'' ''nsubj:1;dobj:2''] ! i) @ '';''
            = pre @ '';dobj:'' @ str_nat (Suc i) @ '';'' @ post)"
proof -
  let ?ws = "[ex_word ''a'' ''dobj:2'', ex_word ''b'' ''nsubj:1;dobj:2'']"
  have h1: "\<forall>w\<in>set ?ws. sep_free (w_surface w) \<and> sep_free (w_lemma w) \<and> sep_free (w_pos w)
              \<and> sep_free (w_syn w)"
    by code_simp
  have h2: "([ex_word ''b'' ''nsubj:1;dobj:2''], [1]) \<in>
       set (fst (matches 2 (the_matcher ex_self) ?ws ''All'' True [''*''] False False))"
    by code_simp
  from self_reference_needs_self_dependency[OF h1 h2] h1 h2 show ?thesis
    unfolding list_all_iff by blast
qed

text \<open>
  C9 as stated fails: a token whose dependency is \<^verbatim>\<open>dobj:1\<close> at position 1 is matched.
  The compiled expression asks that the dependency target be the text of the word's own
  position field, which such a token satisfies.
\<close>

theorem self_reference_matches_counterexample:
  "AbstractPattern_matches 1 ex_self [ex_word ''a'' ''dobj:1''] ''All'' True [''*''] False False
     = Some (Inr ([([ex_word ''a'' ''dobj:1''], [0])], Exhausted))"
  by code_simp

text \<open>
  C10. For the empty token sequence the generator yields nothing and raises nothing,
  whatever the selection policy (also a malformed one, also \<^verbatim>\<open>"All"\<close> without
  overlapping) and whatever the flags: the scan loop, which holds the policy checks, is
  never entered.
\<close>

theorem matches_empty_sentence:
  "matches fuel m [] match_distance overlapping id_order anchor_begin anchor_end
     = ([], Exhausted)"
  by (simp add: matches_def encode_positions_def matches_loop.simps)

end
